theory Spec2Isabelle
  imports Main "HOL-Library.Word" "HOL-Library.Multiset"
begin

chapter \<open>The model\<close>

section \<open>HTTP/2 header field validation (bfe_http2/http2.go)\<close>

text \<open>
  A Go \<^verbatim>\<open>string\<close> is a byte sequence; \<^verbatim>\<open>for _, r := range v\<close> walks over
  its code points (runes), and a byte that is not valid UTF-8 is seen as U+FFFD.  The name
  check is therefore modelled on the sequence of runes of the string, each a natural number;
  the string is empty exactly when that sequence is.  The value check indexes the string
  byte by byte.
\<close>

type_synonym rune = nat

text \<open>The characters set to true in \<^verbatim>\<open>isTokenTable\<close>, in the order of the source.\<close>

definition tokenTableEntries :: "char list" where
  "tokenTableEntries =
     ''!#$%&'' @ [CHR 0x27] @ ''*+-.'' @ ''0123456789'' @
     ''ABCDEFGHIJKLMNOPQRSTUWVXYZ'' @ ''^_'' @ [CHR 0x60] @
     ''abcdefghijklmnopqrstuvwxyz'' @ ''|~''"

text \<open>\<^verbatim>\<open>var isTokenTable = [127]bool{...}\<close>: an array of 127 booleans.\<close>

definition isTokenTable :: "bool list" where
  "isTokenTable = map (\<lambda>i. i \<in> set (map of_char tokenTableEntries)) [0..<127]"

fun validHeaderFieldName_loop :: "rune list \<Rightarrow> bool" where
  "validHeaderFieldName_loop [] = True"
| "validHeaderFieldName_loop (r # rs) =
     (if r \<ge> length isTokenTable \<or> (of_char CHR ''A'' \<le> r \<and> r \<le> of_char CHR ''Z'') then False
      else if \<not> isTokenTable ! (r mod 256) then False
      else validHeaderFieldName_loop rs)"

definition validHeaderFieldName :: "rune list \<Rightarrow> bool" where
  "validHeaderFieldName v = (if length v = 0 then False else validHeaderFieldName_loop v)"

fun validHeaderFieldValue :: "8 word list \<Rightarrow> bool" where
  "validHeaderFieldValue [] = True"
| "validHeaderFieldValue (b # bs) =
     (if (b < 0x20 \<and> b \<noteq> 0x09) \<or> b = 0x7f then False else validHeaderFieldValue bs)"

text \<open>
  The token characters as RFC 7230 defines them (the grammar quoted above the function in the
  source): the fifteen punctuation characters, DIGIT and ALPHA.  This definition follows the
  grammar, not the table, and is compared with the table below.
\<close>

definition rfc7230_tchar :: "rune \<Rightarrow> bool" where
  "rfc7230_tchar r \<longleftrightarrow>
     r \<in> of_char ` set (''!#$%&'' @ [CHR 0x27] @ ''*+-.^_'' @ [CHR 0x60] @ ''|~'')
     \<or> (of_char CHR ''0'' \<le> r \<and> r \<le> of_char CHR ''9'')
     \<or> (of_char CHR ''A'' \<le> r \<and> r \<le> of_char CHR ''Z'')
     \<or> (of_char CHR ''a'' \<le> r \<and> r \<le> of_char CHR ''z'')"

definition asciiUpper :: "rune \<Rightarrow> bool" where
  "asciiUpper r \<longleftrightarrow> of_char CHR ''A'' \<le> r \<and> r \<le> of_char CHR ''Z''"

section \<open>The forwarding pipeline (bfe_server/reverseproxy.go)\<close>

subsection \<open>Requests and header maps\<close>





text \<open>
  A Go map is a reference: the shallow copy \<^verbatim>\<open>*outreq = *req\<close> makes both requests point
  to one header map.  Header maps therefore live in a store, a list of maps addressed by
  position; \<^verbatim>\<open>make\<close> appends a new map.
\<close>

type_synonym addr = nat

datatype request_body = BodyNil | BodyEofReader | BodySpdy bool | BodyOther

text \<open>
  \<^verbatim>\<open>bfe_http.Request\<close>, with the fields the pipeline reads or writes here.
  \<^verbatim>\<open>BodySpdy eof\<close> is a \<^verbatim>\<open>*bfe_spdy.RequestBody\<close> whose \<^verbatim>\<open>Eof()\<close> is
  \<^verbatim>\<open>eof\<close>.
\<close>

record http_request =
  Method :: string
  Host :: string
  Proto :: string
  ProtoMajor :: int
  ProtoMinor :: int
  Close :: bool
  Header :: addr
  Body :: request_body








subsection \<open>Retry decision\<close>

definition RetryConnect :: int where "RetryConnect = 0"
definition RetryGet :: int where "RetryGet = 1"

definition checkRequestWithoutBody :: "'a http_request_scheme \<Rightarrow> bool" where
  "checkRequestWithoutBody req =
     (if Body req = BodyNil \<or> Body req = BodyEofReader then True
      else (case Body req of BodySpdy eof \<Rightarrow> eof | _ \<Rightarrow> False))"

definition checkAllowRetry :: "int \<Rightarrow> 'a http_request_scheme \<Rightarrow> bool" where
  "checkAllowRetry retryLevel outreq =
     (if retryLevel = RetryGet
      then (if Method outreq = ''GET'' \<and> checkRequestWithoutBody outreq then True else False)
      else False)"

subsection \<open>clusterInvoke\<close>

text \<open>
  The error types \<^verbatim>\<open>RoundTrip\<close> can return; \<^verbatim>\<open>WriteRequestError t\<close> carries the
  result \<^verbatim>\<open>t\<close> of its \<^verbatim>\<open>CheckTargetError(request.RemoteAddr)\<close>, and
  \<^verbatim>\<open>OtherError\<close> stands for the \<^verbatim>\<open>default\<close> branch of the type switch.
\<close>

datatype roundtrip_error =
    ConnectError
  | WriteRequestError bool
  | ReadRespHeaderError
  | RespHeaderTimeoutError
  | TransportBrokenError
  | OtherError

datatype err_code =
    ErrBkNoCluster
  | ErrBkConnectBackend
  | ErrBkWriteRequest
  | ErrBkReadRespHeader
  | ErrBkRespHeaderTimeout
  | ErrBkTransportBroken

type_synonym backend = nat

text \<open>
  The result of \<^verbatim>\<open>bal.Balance(request)\<close>: a backend, the error
  \<^verbatim>\<open>ErrBkCrossRetryBalance\<close>, or any other error.
\<close>

datatype balance_result = Selected backend | ErrBkCrossRetryBalance | BalanceFailed

datatype invoke_error = BalLookupFailed | BalanceErr balance_result | RoundTripErr roundtrip_error

datatype action = NoAction | closeAfterReply

text \<open>The calls made on the balancer, the handlers, the transport and the backend, in order.\<close>

datatype event =
    EvBalance
  | EvFilterForward
  | EvDecConnNum backend
  | EvAddConnNum backend
  | EvRoundTrip backend
  | EvOnSuccess backend
  | EvOnFail backend

datatype route_error = ErrNoProduct | ErrNoProductRule | ErrNoMatchRule

text \<open>\<^verbatim>\<open>bfe_basic.RequestRoute\<close>: the routing result kept in the request.\<close>

record request_route =
  HostTag :: string
  Product :: string
  Error :: "route_error option"
  ClusterName :: string

text \<open>
  \<^verbatim>\<open>bfe_basic.Request\<close>, with the fields that routing and \<^verbatim>\<open>clusterInvoke\<close>
  use.  \<^verbatim>\<open>SessionVip\<close> is \<^verbatim>\<open>req.Session.Vip\<close>: \<^verbatim>\<open>None\<close> when it is
  \<^verbatim>\<open>nil\<close>, otherwise the address as \<^verbatim>\<open>vip.String()\<close> prints it.
\<close>

record request =
  HttpRequest :: http_request
  SessionVip :: "string option"
  Route :: request_route
  RetryTime :: int
  ErrCode :: "err_code option"
  TransBackend :: "backend option"
  OutRequest :: http_request

text \<open>
  What \<^verbatim>\<open>clusterInvoke\<close> calls outside itself.  The balancer (which holds the
  cluster's \<^verbatim>\<open>RetryMax\<close> and \<^verbatim>\<open>CrossRetry\<close>), the forward handlers and the
  transport are each called at most once in an iteration of the loop, so each is given as
  the outcome of its call in iteration \<^verbatim>\<open>i\<close>; any behaviour of theirs is some such
  family.  \<^verbatim>\<open>RoundTrip\<close> also returns the outbound request as the call leaves it (its
  body may have been read).  \<^verbatim>\<open>ForwardHandlers\<close> is \<^verbatim>\<open>None\<close> when there is no
  handler list for \<^verbatim>\<open>HANDLE_FORWARD\<close>.
\<close>

record environment =
  balLookup :: bool
  Balance :: "nat \<Rightarrow> balance_result"
  ForwardHandlers :: "(nat \<Rightarrow> int) option"
  RoundTrip :: "nat \<Rightarrow> http_request \<Rightarrow> roundtrip_error option \<times> http_request"
  RetryLevel :: int

definition BFE_HANDLER_FINISH :: int where "BFE_HANDLER_FINISH = 0"

record invoke_state =
  rq :: request
  res :: bool
  act :: action
  err :: "invoke_error option"
  events :: "event list"

definition emit :: "event list \<Rightarrow> invoke_state \<Rightarrow> invoke_state" where
  "emit es s = s\<lparr>events := events s @ es\<rparr>"

definition incRetryTime :: "invoke_state \<Rightarrow> invoke_state" where
  "incRetryTime s = s\<lparr>rq := (rq s)\<lparr>RetryTime := RetryTime (rq s) + 1\<rparr>\<rparr>"

definition setErrCode :: "err_code option \<Rightarrow> invoke_state \<Rightarrow> invoke_state" where
  "setErrCode c s = s\<lparr>rq := (rq s)\<lparr>ErrCode := c\<rparr>\<rparr>"

text \<open>
  The type switch on the error of \<^verbatim>\<open>RoundTrip\<close>: it sets the error code, reports the
  failure to the backend, and computes \<^verbatim>\<open>allowRetry\<close>.
\<close>

fun onRoundTripError ::
  "int \<Rightarrow> backend \<Rightarrow> roundtrip_error \<Rightarrow> invoke_state \<Rightarrow> bool \<times> invoke_state" where
  "onRoundTripError retryLevel b ConnectError s =
     (True, emit [EvOnFail b] (setErrCode (Some ErrBkConnectBackend) s))"
| "onRoundTripError retryLevel b (WriteRequestError t) s =
     (checkAllowRetry retryLevel (OutRequest (rq s)),
      (if \<not> t then emit [EvOnFail b] else id) (setErrCode (Some ErrBkWriteRequest) s))"
| "onRoundTripError retryLevel b ReadRespHeaderError s =
     (checkAllowRetry retryLevel (OutRequest (rq s)),
      emit [EvOnFail b] (setErrCode (Some ErrBkReadRespHeader) s))"
| "onRoundTripError retryLevel b RespHeaderTimeoutError s =
     (checkAllowRetry retryLevel (OutRequest (rq s)),
      emit [EvOnFail b] (setErrCode (Some ErrBkRespHeaderTimeout) s))"
| "onRoundTripError retryLevel b TransportBrokenError s =
     (checkAllowRetry retryLevel (OutRequest (rq s)),
      setErrCode (Some ErrBkTransportBroken) s)"
| "onRoundTripError retryLevel b OtherError s = (False, s)"

text \<open>How one pass through the body of the \<^verbatim>\<open>for\<close> loop ends.\<close>

datatype flow = Continue invoke_state | Break invoke_state | Return invoke_state

text \<open>
  The second half of the loop body, from \<^verbatim>\<open>backend.AddConnNum()\<close> on: the round
  trip and the treatment of its result.
\<close>

definition clusterInvoke_forward :: "environment \<Rightarrow> nat \<Rightarrow> backend \<Rightarrow> invoke_state \<Rightarrow> flow" where
  "clusterInvoke_forward env i b s0 =
     (let s1 = emit [EvAddConnNum b, EvRoundTrip b] s0;
          (e, outreq) = RoundTrip env i (OutRequest (rq s1));
          s2 = s1\<lparr>rq := (rq s1)\<lparr>OutRequest := outreq\<rparr>\<rparr>
      in case e of
           None \<Rightarrow> Break (setErrCode None (emit [EvOnSuccess b] (s2\<lparr>res := True, err := None\<rparr>)))
         | Some e \<Rightarrow>
             let (allowRetry, s3) =
                   onRoundTripError (RetryLevel env) b e (s2\<lparr>res := False, err := Some (RoundTripErr e)\<rparr>)
             in if \<not> allowRetry then Break s3 else Continue (incRetryTime s3))"

definition clusterInvoke_body :: "environment \<Rightarrow> nat \<Rightarrow> invoke_state \<Rightarrow> flow" where
  "clusterInvoke_body env i s0 =
     (let s1 = emit [EvBalance] s0 in
      case Balance env i of
        ErrBkCrossRetryBalance \<Rightarrow>
          Continue (incRetryTime (s1\<lparr>err := Some (BalanceErr ErrBkCrossRetryBalance)\<rparr>))
      | BalanceFailed \<Rightarrow> Break (s1\<lparr>err := Some (BalanceErr BalanceFailed)\<rparr>)
      | Selected b \<Rightarrow>
          let s2 = s1\<lparr>err := None\<rparr>;
              s3 = (case TransBackend (rq s2) of
                      Some old \<Rightarrow> emit [EvDecConnNum old] s2
                    | None \<Rightarrow> s2);
              s4 = s3\<lparr>rq := (rq s3)\<lparr>TransBackend := Some b\<rparr>\<rparr>
          in
          (case ForwardHandlers env of
             Some FilterForward \<Rightarrow>
               if FilterForward i = BFE_HANDLER_FINISH
               then Return ((emit [EvFilterForward] s4)\<lparr>act := closeAfterReply\<rparr>)
               else clusterInvoke_forward env i b (emit [EvFilterForward] s4)
           | None \<Rightarrow> clusterInvoke_forward env i b s4))"

text \<open>
  \<^verbatim>\<open>for i := 0; i < 20; i++ { ... }\<close>.  The result is the state in which the function
  goes on after the loop, or returns from inside it.
\<close>

function clusterInvoke_loop :: "environment \<Rightarrow> nat \<Rightarrow> invoke_state \<Rightarrow> invoke_state" where
  "clusterInvoke_loop env i s =
     (if i < 20 then
        (case clusterInvoke_body env i s of
           Continue s' \<Rightarrow> clusterInvoke_loop env (i + 1) s'
         | Break s' \<Rightarrow> s'
         | Return s' \<Rightarrow> s')
      else s)"
  by pat_completeness auto
termination
  by (relation "measure (\<lambda>(env, i, s). 20 - i)") auto

declare clusterInvoke_loop.simps [simp del]

definition clusterInvoke :: "environment \<Rightarrow> request \<Rightarrow> invoke_state" where
  "clusterInvoke env request =
     (if \<not> balLookup env then
        \<lparr>rq = request\<lparr>ErrCode := Some ErrBkNoCluster\<rparr>, res = False, act = closeAfterReply,
         err = Some BalLookupFailed, events = []\<rparr>
      else clusterInvoke_loop env 0
        \<lparr>rq = request, res = False, act = NoAction, err = None, events = []\<rparr>)"

text \<open>The backend selections and the forward attempts made while serving a request.\<close>

definition selections :: "invoke_state \<Rightarrow> nat" where
  "selections s = length (filter (\<lambda>e. e = EvBalance) (events s))"

fun is_RoundTrip :: "event \<Rightarrow> bool" where
  "is_RoundTrip (EvRoundTrip b) = True"
| "is_RoundTrip _ = False"

definition forwards :: "invoke_state \<Rightarrow> nat" where
  "forwards s = length (filter is_RoundTrip (events s))"

text \<open>The state in which a pass through the loop body ends.\<close>

fun flow_state :: "flow \<Rightarrow> invoke_state" where
  "flow_state (Continue s) = s"
| "flow_state (Break s) = s"
| "flow_state (Return s) = s"

subsection \<open>Example requests and environments\<close>

definition exampleGet :: http_request where
  "exampleGet = \<lparr>Method = ''GET'', Host = ''www.example.com'', Proto = ''HTTP/1.1'', ProtoMajor = 1, ProtoMinor = 1,
     Close = False, Header = 0, Body = BodyNil\<rparr>"

definition examplePost :: http_request where
  "examplePost = exampleGet\<lparr>Method := ''POST'', Body := BodyOther\<rparr>"

text \<open>An environment in which every selection succeeds and every round trip fails with \<^verbatim>\<open>e\<close>.\<close>

definition failingEnv :: "roundtrip_error \<Rightarrow> int \<Rightarrow> environment" where
  "failingEnv e level = \<lparr>balLookup = True, Balance = (\<lambda>i. Selected i), ForwardHandlers = None,
     RoundTrip = (\<lambda>i r. (Some e, r)), RetryLevel = level\<rparr>"

definition crossRetryEnv :: environment where
  "crossRetryEnv = \<lparr>balLookup = True, Balance = (\<lambda>i. ErrBkCrossRetryBalance),
     ForwardHandlers = None, RoundTrip = (\<lambda>i r. (None, r)), RetryLevel = RetryConnect\<rparr>"

definition startState :: "http_request \<Rightarrow> invoke_state" where
  "startState outreq = \<lparr>rq = \<lparr>HttpRequest = outreq, SessionVip = None,
       Route = \<lparr>HostTag = [], Product = [], Error = None, ClusterName = []\<rparr>, RetryTime = 0, ErrCode = None, TransBackend = None, OutRequest = outreq\<rparr>,
     res = False, act = NoAction, err = None, events = []\<rparr>"



section \<open>The host table (bfe_route/host_table.go)\<close>

subsection \<open>Strings\<close>

text \<open>
  Host names are modelled as lists of characters, one character for one rune; the names
  looked at here are ASCII (a host name in a request or in the configuration is).
  \<^verbatim>\<open>strings.ToLower\<close> maps every letter to its lower case.
\<close>

definition toLowerChar :: "char \<Rightarrow> char" where
  "toLowerChar c =
     (case map_of (zip ''ABCDEFGHIJKLMNOPQRSTUVWXYZ'' ''abcdefghijklmnopqrstuvwxyz'') c of
        Some l \<Rightarrow> l
      | None \<Rightarrow> c)"

definition ToLower :: "string \<Rightarrow> string" where
  "ToLower s = map toLowerChar s"

text \<open>
  \<^verbatim>\<open>strings.Split(s, sep)\<close> for a separator of one character: the substrings between
  the separators, one more than there are separators; \<^verbatim>\<open>Split("", ".")\<close> is
  \<^verbatim>\<open>[""]\<close>.
\<close>

fun Split :: "string \<Rightarrow> char \<Rightarrow> string list" where
  "Split [] sep = [[]]"
| "Split (c # s) sep =
     (if c = sep then [] # Split s sep
      else (case Split s sep of w # ws \<Rightarrow> (c # w) # ws | [] \<Rightarrow> [[c]]))"

definition hostnameStrip :: "string \<Rightarrow> string" where
  "hostnameStrip hostname = Split hostname CHR '':'' ! 0"

text \<open>
  The loop of \<^verbatim>\<open>reverseFqdnHost\<close>:
  \<^verbatim>\<open>for i, j := 0, len(r)-1; i < j; i, j = i+1, j-1 { r[i], r[j] = r[j], r[i] }\<close>.
  The indices are natural numbers here: for the empty string \<^verbatim>\<open>len(r)-1\<close> is
  \<^verbatim>\<open>-1\<close> in Go and \<^verbatim>\<open>0\<close> here, and in both the loop is not entered.
\<close>

function reverseFqdnHost_loop :: "string \<Rightarrow> nat \<Rightarrow> nat \<Rightarrow> string" where
  "reverseFqdnHost_loop r i j =
     (if i < j then reverseFqdnHost_loop (r[i := r ! j, j := r ! i]) (i + 1) (j - 1) else r)"
  by pat_completeness auto
termination
  by (relation "measure (\<lambda>(r, i, j). j - i)") auto

declare reverseFqdnHost_loop.simps [simp del]

definition reverseFqdnHost :: "string \<Rightarrow> string" where
  "reverseFqdnHost host =
     (let r = reverseFqdnHost_loop host 0 (length host - 1)
      in if length r > 0 \<and> r ! 0 = CHR ''.'' then drop 1 r else r)"

subsection \<open>Tables\<close>

text \<open>\<^verbatim>\<open>type route struct { product string; tag string }\<close>\<close>

record route =
  product :: string
  tag :: string

text \<open>
  \<^verbatim>\<open>route_rule_conf\<close>'s rule: a condition and a target cluster name
  (\<^verbatim>\<open>rule.ClusterName\<close>, here \<^verbatim>\<open>rule_ClusterName\<close>).  The condition is the
  predicate \<^verbatim>\<open>rule.Cond.Match\<close> on requests.
\<close>

record routeRule =
  Cond :: "request \<Rightarrow> bool"
  rule_ClusterName :: string


text \<open>
  The package \<^verbatim>\<open>trie\<close> is not among the sources: a trie is taken as what
  \<^verbatim>\<open>Get\<close> answers for a key, and building one as the \<^verbatim>\<open>Set\<close> calls made on the
  new trie.  \<^verbatim>\<open>hostTrie = None\<close> is the \<^verbatim>\<open>nil\<close> pointer.
\<close>

type_synonym trie = "string list \<Rightarrow> route option"

record HostTable =
  hostTrie :: "trie option"
  vipTable :: "(string \<times> string) list"
  defaultProduct :: string
  productRouteTable :: "string \<rightharpoonup> routeRule list"

definition emptyRoute :: route where
  "emptyRoute = \<lparr>product = [], tag = []\<rparr>"


definition findHostRoute :: "HostTable \<Rightarrow> string \<Rightarrow> route \<times> route_error option" where
  "findHostRoute t host =
     (case hostTrie t of
        None \<Rightarrow> (emptyRoute, Some ErrNoProduct)
      | Some Get \<Rightarrow>
          let host = ToLower host in
          (case Get (Split (reverseFqdnHost (hostnameStrip host)) CHR ''.'') of
             Some match \<Rightarrow> (match, None)
           | None \<Rightarrow> (emptyRoute, Some ErrNoProduct)))"

definition findVipRoute :: "HostTable \<Rightarrow> string \<Rightarrow> route \<times> route_error option" where
  "findVipRoute t vip =
     (if length (vipTable t) = 0 then (emptyRoute, Some ErrNoProduct)
      else (case map_of (vipTable t) vip of
              Some p \<Rightarrow> (\<lparr>product = p, tag = []\<rparr>, None)
            | None \<Rightarrow> (emptyRoute, Some ErrNoProduct)))"

subsection \<open>Lookups\<close>

text \<open>
  \<^verbatim>\<open>hostRoute\<close> and \<^verbatim>\<open>err\<close> are assigned up to three times; the index counts
  the assignments.
\<close>

definition LookupHostTagAndProduct :: "HostTable \<Rightarrow> request \<Rightarrow> request \<times> route_error option" where
  "LookupHostTagAndProduct t req =
     (let hostName = Host (HttpRequest req);
          (hostRoute1, err1) = findHostRoute t hostName;
          (hostRoute2, err2) =
             (if err1 \<noteq> None then
                (case SessionVip req of
                   Some vip \<Rightarrow> findVipRoute t vip
                 | None \<Rightarrow> (hostRoute1, err1))
              else (hostRoute1, err1));
          (hostRoute3, err3) =
             (if err2 \<noteq> None \<and> defaultProduct t \<noteq> []
              then (\<lparr>product = defaultProduct t, tag = []\<rparr>, None)
              else (hostRoute2, err2))
      in (req\<lparr>Route := (Route req)\<lparr>HostTag := tag hostRoute3, Product := product hostRoute3,
                                       Error := err3\<rparr>\<rparr>,
          err3))"

text \<open>
  The loop of \<^verbatim>\<open>LookupCluster\<close> over the rules, with the variable
  \<^verbatim>\<open>clusterName\<close> as its state.
\<close>

fun LookupCluster_loop :: "routeRule list \<Rightarrow> request \<Rightarrow> string \<Rightarrow> string" where
  "LookupCluster_loop [] req clusterName = clusterName"
| "LookupCluster_loop (rule # rules) req clusterName =
     (if Cond rule req then rule_ClusterName rule
      else LookupCluster_loop rules req clusterName)"

definition LookupCluster :: "HostTable \<Rightarrow> request \<Rightarrow> request \<times> route_error option" where
  "LookupCluster t req =
     (case productRouteTable t (Product (Route req)) of
        None \<Rightarrow>
          (req\<lparr>Route := (Route req)\<lparr>ClusterName := [], Error := Some ErrNoProductRule\<rparr>\<rparr>,
           Some ErrNoProductRule)
      | Some rules \<Rightarrow>
          let clusterName = LookupCluster_loop rules req [] in
          if clusterName = []
          then (req\<lparr>Route := (Route req)\<lparr>ClusterName := [], Error := Some ErrNoMatchRule\<rparr>\<rparr>,
                Some ErrNoMatchRule)
          else (req\<lparr>Route := (Route req)\<lparr>ClusterName := clusterName\<rparr>\<rparr>, None))"

subsection \<open>The lookups as the specification words them\<close>

text \<open>A failed cluster lookup: the cluster name is emptied and the error is stored and returned.\<close>

definition routeFail :: "request \<Rightarrow> route_error \<Rightarrow> request \<times> route_error option" where
  "routeFail req e = (req\<lparr>Route := (Route req)\<lparr>ClusterName := [], Error := Some e\<rparr>\<rparr>, Some e)"


text \<open>
  The three sources of a product, in the order of the specification: the host name, the VIP
  of the session when it has one, the default product when one is configured.
\<close>

definition hostLookup :: "HostTable \<Rightarrow> request \<Rightarrow> route option" where
  "hostLookup t req =
     (case hostTrie t of
        None \<Rightarrow> None
      | Some Get \<Rightarrow>
          Get (Split (reverseFqdnHost (hostnameStrip (ToLower (Host (HttpRequest req))))) CHR ''.''))"

definition vipLookup :: "HostTable \<Rightarrow> request \<Rightarrow> route option" where
  "vipLookup t req =
     (case SessionVip req of
        None \<Rightarrow> None
      | Some vip \<Rightarrow> map_option (\<lambda>p. \<lparr>product = p, tag = []\<rparr>) (map_of (vipTable t) vip))"

definition resolveProduct :: "HostTable \<Rightarrow> request \<Rightarrow> route option" where
  "resolveProduct t req =
     (case hostLookup t req of
        Some r \<Rightarrow> Some r
      | None \<Rightarrow>
          (case vipLookup t req of
             Some r \<Rightarrow> Some r
           | None \<Rightarrow>
               if defaultProduct t \<noteq> [] then Some \<lparr>product = defaultProduct t, tag = []\<rparr>
               else None))"


subsection \<open>Example tables and requests\<close>

definition hostIs :: "string \<Rightarrow> string \<Rightarrow> routeRule" where
  "hostIs h cluster = \<lparr>Cond = (\<lambda>req. Host (HttpRequest req) = h), rule_ClusterName = cluster\<rparr>"

definition anyRequest :: "string \<Rightarrow> routeRule" where
  "anyRequest cluster = \<lparr>Cond = (\<lambda>req. True), rule_ClusterName = cluster\<rparr>"

definition exampleTrie :: trie where
  "exampleTrie = map_of [([''moc'', ''udiab'', ''swen''], \<lparr>product = ''P1'', tag = ''t1''\<rparr>)]"

definition exampleTable :: HostTable where
  "exampleTable =
     \<lparr>hostTrie = Some exampleTrie,
      vipTable = [(''10.0.0.1'', ''P2'')],
      defaultProduct = ''P0'',
      productRouteTable =
        [''P1'' \<mapsto> [hostIs ''other.baidu.com'' ''C_other'', hostIs ''news.baidu.com'' ''C_api'',
                    anyRequest ''C_rest''],
         ''P2'' \<mapsto> [hostIs ''other.baidu.com'' ''C_other'', anyRequest [], anyRequest ''C_rest''],
         ''P3'' \<mapsto> [hostIs ''other.baidu.com'' ''C_other'']]\<rparr>"

definition exampleRequest :: "string \<Rightarrow> string option \<Rightarrow> string \<Rightarrow> request" where
  "exampleRequest host vip p =
     \<lparr>HttpRequest = exampleGet\<lparr>Host := host\<rparr>, SessionVip = vip,
      Route = \<lparr>HostTag = [], Product = p, Error = None, ClusterName = []\<rparr>,
      RetryTime = 0, ErrCode = None, TransBackend = None, OutRequest = exampleGet\<rparr>"



section \<open>The IP dictionary (bfe_util/ipdict/ipdict.go)\<close>

subsection \<open>Addresses and pairs\<close>

text \<open>
  Every address of the array is a slice of 16 bytes (\<^verbatim>\<open>InsertPair\<close> stores the
  \<^verbatim>\<open>To16()\<close> form), read here as an unsigned number of 128 bits, first byte highest.
  On two such slices \<^verbatim>\<open>bytes.Compare(a, b) >= 0\<close> is \<^verbatim>\<open>a \<ge> b\<close> and
  \<^verbatim>\<open>bytes.Equal\<close> is equality.  \<^verbatim>\<open>net.IPv6zero\<close> is sixteen zero bytes;
  \<^verbatim>\<open>net.IPv4zero\<close> is the 16-byte form of 0.0.0.0, that is \<^verbatim>\<open>::ffff:0.0.0.0\<close>.
\<close>

type_synonym ip = "128 word"

definition IPv6zero :: ip where
  "IPv6zero = 0"

definition IPv4 :: "ip \<Rightarrow> ip \<Rightarrow> ip \<Rightarrow> ip \<Rightarrow> ip" where
  "IPv4 a b c d = 0xffff00000000 + a * 0x1000000 + b * 0x10000 + c * 0x100 + d"

definition IPv4zero :: ip where
  "IPv4zero = IPv4 0 0 0 0"

record ipPair =
  startIP :: ip
  endIP :: ip

type_synonym ipPairs = "ipPair list"

definition zeroPair :: ipPair where
  "zeroPair = \<lparr>startIP = IPv6zero, endIP = IPv6zero\<rparr>"

definition Less :: "ipPairs \<Rightarrow> nat \<Rightarrow> nat \<Rightarrow> bool" where
  "Less items i j = (startIP (items ! i) \<ge> startIP (items ! j))"

definition Swap :: "ipPairs \<Rightarrow> nat \<Rightarrow> nat \<Rightarrow> ipPairs" where
  "Swap items i j = items[i := items ! j, j := items ! i]"

subsection \<open>sort.Sort\<close>

text \<open>
  \<^verbatim>\<open>sort.Sort\<close> belongs to Go's library, not to the repository.  It is modelled by the
  library's insertion sort, which is all that \<^verbatim>\<open>sort.Sort\<close> does on a slice of up to
  six elements (up to twelve in later versions of Go):
  \<^verbatim>\<open>for i := a+1; i < b; i++ { for j := i; j > a && data.Less(j, j-1); j-- { data.Swap(j, j-1) } }\<close>,
  with \<^verbatim>\<open>Less\<close> and \<^verbatim>\<open>Swap\<close> of the repository.  Since \<^verbatim>\<open>Less\<close> holds for
  two equal start addresses, pairs with the same start address change places.
\<close>

function insertionSort_inner :: "ipPairs \<Rightarrow> nat \<Rightarrow> ipPairs" where
  "insertionSort_inner items j =
     (if j > 0 \<and> Less items j (j - 1)
      then insertionSort_inner (Swap items j (j - 1)) (j - 1)
      else items)"
  by pat_completeness auto
termination
  by (relation "measure (\<lambda>(items, j). j)") auto

declare insertionSort_inner.simps [simp del]

lemma length_insertionSort_inner: "length (insertionSort_inner items j) = length items"
proof (induction items j rule: insertionSort_inner.induct)
  case (1 items j)
  then show ?case
    by (simp add: insertionSort_inner.simps[of items j] Swap_def)
qed

function insertionSort :: "ipPairs \<Rightarrow> nat \<Rightarrow> ipPairs" where
  "insertionSort items i =
     (if i < length items then insertionSort (insertionSort_inner items i) (i + 1) else items)"
  by pat_completeness auto
termination
  by (relation "measure (\<lambda>(items, i). length items - i)")
     (auto simp: length_insertionSort_inner)

declare insertionSort.simps [simp del]

definition sort_Sort :: "ipPairs \<Rightarrow> ipPairs" where
  "sort_Sort items = insertionSort items 1"

subsection \<open>Merging\<close>

text \<open>
  The loop \<^verbatim>\<open>for k := i + 1; k < j; k++\<close> of \<^verbatim>\<open>checkMerge\<close>, with the array and
  \<^verbatim>\<open>mergedNum\<close> as its state.
\<close>

function checkMerge_loop :: "ipPairs \<Rightarrow> nat \<Rightarrow> nat \<Rightarrow> nat \<Rightarrow> ipPairs \<times> nat" where
  "checkMerge_loop items k j mergedNum =
     (if k < j then
        (if endIP (items ! k) = IPv6zero \<or> endIP (items ! k) = IPv4zero
         then checkMerge_loop items (k + 1) j mergedNum
         else checkMerge_loop (items[k := zeroPair]) (k + 1) j (mergedNum + 1))
      else (items, mergedNum))"
  by pat_completeness auto
termination
  by (relation "measure (\<lambda>(items, k, j, mergedNum). j - k)") auto

declare checkMerge_loop.simps [simp del]

definition checkMerge :: "ipPairs \<Rightarrow> nat \<Rightarrow> nat \<Rightarrow> ipPairs \<times> nat" where
  "checkMerge items0 i j =
     (if endIP (items0 ! j) \<ge> startIP (items0 ! i) then
        let items1 = items0[i := (items0 ! i)\<lparr>startIP := startIP (items0 ! j)\<rparr>];
            items2 = (if endIP (items1 ! j) \<ge> endIP (items1 ! i)
                      then items1[i := (items1 ! i)\<lparr>endIP := endIP (items1 ! j)\<rparr>]
                      else items1);
            items3 = items2[j := zeroPair]
        in checkMerge_loop items3 (i + 1) j 1
      else (items0, 0))"

text \<open>
  The inner loop \<^verbatim>\<open>for j := i + 1; j < length; j++\<close> of \<^verbatim>\<open>mergeItems\<close>.  Its test
  for an empty slot reads the end of \<^verbatim>\<open>items[j]\<close> for \<^verbatim>\<open>IPv6zero\<close> and the end of
  \<^verbatim>\<open>items[i]\<close> for \<^verbatim>\<open>IPv4zero\<close>, as the source does.
\<close>

function mergeItems_inner :: "ipPairs \<Rightarrow> nat \<Rightarrow> nat \<Rightarrow> nat \<Rightarrow> nat \<Rightarrow> ipPairs \<times> nat" where
  "mergeItems_inner items i j len mergedNum =
     (if j < len then
        (if endIP (items ! j) = IPv6zero \<or> endIP (items ! i) = IPv4zero
         then mergeItems_inner items i (j + 1) len mergedNum
         else (case checkMerge items i j of
                 (items', n) \<Rightarrow> mergeItems_inner items' i (j + 1) len (mergedNum + n)))
      else (items, mergedNum))"
  by pat_completeness auto
termination
  by (relation "measure (\<lambda>(items, i, j, len, mergedNum). len - j)") auto

declare mergeItems_inner.simps [simp del]

text \<open>
  The outer loop \<^verbatim>\<open>for i := 0; i < length-1; i++\<close>; \<^verbatim>\<open>i < length-1\<close> is written
  \<^verbatim>\<open>i + 1 < length\<close>, which is the same also for the empty array.
\<close>

function mergeItems_outer :: "ipPairs \<Rightarrow> nat \<Rightarrow> nat \<Rightarrow> nat \<Rightarrow> ipPairs \<times> nat" where
  "mergeItems_outer items i len mergedNum =
     (if i + 1 < len then
        (if endIP (items ! i) = IPv6zero \<or> endIP (items ! i) = IPv4zero
         then mergeItems_outer items (i + 1) len mergedNum
         else (case mergeItems_inner items i (i + 1) len mergedNum of
                 (items', mergedNum') \<Rightarrow> mergeItems_outer items' (i + 1) len mergedNum'))
      else (items, mergedNum))"
  by pat_completeness auto
termination
  by (relation "measure (\<lambda>(items, i, len, mergedNum). len - i)") auto

declare mergeItems_outer.simps [simp del]

definition mergeItems :: "ipPairs \<Rightarrow> ipPairs \<times> nat" where
  "mergeItems items = mergeItems_outer items 0 (length items) 0"

subsection \<open>Insert and Sort\<close>


text \<open>
  \<^verbatim>\<open>Sort\<close>.  The reslice \<^verbatim>\<open>items[0:length]\<close> panics when \<^verbatim>\<open>length\<close> is
  negative; that is the result \<^verbatim>\<open>None\<close>.
\<close>

definition Sort :: "ipPairs \<Rightarrow> ipPairs option" where
  "Sort items0 =
     (let items1 = sort_Sort items0;
          (items2, mergedNum) = mergeItems items1;
          items3 = sort_Sort items2
      in if mergedNum > length items3 then None
         else Some (take (length items3 - mergedNum) items3))"

subsection \<open>The merge as a function on lists\<close>

text \<open>
  The loops of \<^verbatim>\<open>mergeItems\<close> work on the array from left to right and never touch what
  lies before \<^verbatim>\<open>items[i]\<close>.  The functions below say the same on lists; the section on
  the dictionary's properties proves that the loops compute them.  \<^verbatim>\<open>emptySlot\<close> is the
  test the source makes on \<^verbatim>\<open>items[i]\<close> and \<^verbatim>\<open>items[k]\<close>.
\<close>

definition emptySlot :: "ipPair \<Rightarrow> bool" where
  "emptySlot p \<longleftrightarrow> endIP p = IPv6zero \<or> endIP p = IPv4zero"

definition clearSlots :: "ipPairs \<Rightarrow> ipPairs" where
  "clearSlots ps = map (\<lambda>p. if emptySlot p then p else zeroPair) ps"

definition countFull :: "ipPairs \<Rightarrow> nat" where
  "countFull ps = length (filter (\<lambda>p. \<not> emptySlot p) ps)"

definition mergePair :: "ipPair \<Rightarrow> ipPair \<Rightarrow> ipPair" where
  "mergePair x y = x\<lparr>startIP := startIP y,
                      endIP := (if endIP y \<ge> endIP x then endIP y else endIP x)\<rparr>"

fun absorb :: "ipPair \<Rightarrow> ipPairs \<Rightarrow> ipPairs \<Rightarrow> nat \<Rightarrow> ipPair \<times> ipPairs \<times> nat" where
  "absorb x dn [] n = (x, dn, n)"
| "absorb x dn (y # todo) n =
     (if endIP y = IPv6zero \<or> endIP x = IPv4zero then absorb x (dn @ [y]) todo n
      else if endIP y \<ge> startIP x
           then absorb (mergePair x y) (clearSlots dn @ [zeroPair]) todo (n + 1 + countFull dn)
           else absorb x (dn @ [y]) todo n)"

lemma length_clearSlots [simp]: "length (clearSlots ps) = length ps"
  by (simp add: clearSlots_def)

lemma length_absorb: "absorb x dn todo n = (x', dn', n') \<Longrightarrow> length dn' = length dn + length todo"
  by (induction x dn todo n arbitrary: x' dn' n' rule: absorb.induct) (auto split: if_splits)

function mergeList :: "ipPairs \<Rightarrow> nat \<Rightarrow> ipPairs \<times> nat" where
  "mergeList [] n = ([], n)"
| "mergeList [x] n = ([x], n)"
| "mergeList (x # y # ys) n =
     (if emptySlot x then (case mergeList (y # ys) n of (r, n') \<Rightarrow> (x # r, n'))
      else (case absorb x [] (y # ys) n of
              (x', ys', n') \<Rightarrow> (case mergeList ys' n' of (r, n'') \<Rightarrow> (x' # r, n''))))"
  by pat_completeness auto
termination
  by (relation "measure (\<lambda>(xs, n). length xs)")
     (auto simp del: absorb.simps dest: length_absorb[OF sym])

subsection \<open>Ranges, and what Sort is to achieve\<close>

text \<open>
  A pair is a range the dictionary can tell from an empty slot when its start is not the
  all-zero address, its start is not above its end, and its end is not 0.0.0.0.  The
  addresses of an array are those of its ranges.  \<^verbatim>\<open>below p q\<close> says that \<^verbatim>\<open>q\<close> lies
  wholly below \<^verbatim>\<open>p\<close>: the two do not overlap, and \<^verbatim>\<open>p\<close> starts higher.
\<close>

abbreviation startGe :: "ipPair \<Rightarrow> ipPair \<Rightarrow> bool" where
  "startGe p q \<equiv> startIP p \<ge> startIP q"

definition validPair :: "ipPair \<Rightarrow> bool" where
  "validPair p \<longleftrightarrow> IPv6zero < startIP p \<and> startIP p \<le> endIP p \<and> endIP p \<noteq> IPv4zero"

definition slot :: "ipPair \<Rightarrow> bool" where
  "slot p \<longleftrightarrow> validPair p \<or> p = zeroPair"

definition addresses :: "ipPairs \<Rightarrow> ip set" where
  "addresses ps = (\<Union>p\<in>set ps. {startIP p..endIP p})"

definition cover :: "ipPairs \<Rightarrow> ip set" where
  "cover ps = addresses (filter (\<lambda>p. p \<noteq> zeroPair) ps)"

definition startGeV :: "ipPair \<Rightarrow> ipPair \<Rightarrow> bool" where
  "startGeV p q \<longleftrightarrow> (validPair p \<and> validPair q \<longrightarrow> startIP q \<le> startIP p)"

definition belowV :: "ipPair \<Rightarrow> ipPair \<Rightarrow> bool" where
  "belowV p q \<longleftrightarrow> (validPair p \<and> validPair q \<longrightarrow> endIP q < startIP p)"

definition below :: "ipPair \<Rightarrow> ipPair \<Rightarrow> bool" where
  "below p q \<longleftrightarrow> endIP q < startIP p"

definition absorbInv :: "ipPair \<Rightarrow> ipPairs \<Rightarrow> ipPairs \<Rightarrow> bool" where
  "absorbInv x dn todo \<longleftrightarrow>
     validPair x \<and> (\<forall>p\<in>set (dn @ todo). slot p) \<and> sorted_wrt startGeV (x # dn @ todo)
     \<and> (\<forall>p\<in>set dn. validPair p \<longrightarrow> endIP p < startIP x)"

definition mergePre :: "ipPairs \<Rightarrow> bool" where
  "mergePre xs \<longleftrightarrow> (\<forall>p\<in>set xs. slot p) \<and> sorted_wrt startGeV xs"

subsection \<open>Example ranges\<close>

definition range4 :: "ip \<Rightarrow> ip \<Rightarrow> ip \<Rightarrow> ipPair" where
  "range4 net a b = \<lparr>startIP = IPv4 net 0 0 a, endIP = IPv4 net 0 0 b\<rparr>"



chapter \<open>The properties\<close>

section \<open>Properties of the header field validation\<close>

subsection \<open>The table is the RFC 7230 token grammar\<close>

lemma isTokenTable_length: "length isTokenTable = 127"
  by (simp add: isTokenTable_def)

lemma rfc7230_tchar_bound: "rfc7230_tchar r \<Longrightarrow> r < 127"
  by (auto simp: rfc7230_tchar_def)

lemma isTokenTable_nth:
  assumes "r < 127" shows "isTokenTable ! r = (r \<in> of_char ` set tokenTableEntries)"
  using assms by (simp add: isTokenTable_def)

lemma tokenTableEntries_tchar:
  "r \<in> of_char ` set tokenTableEntries \<longleftrightarrow> rfc7230_tchar r"
  unfolding tokenTableEntries_def rfc7230_tchar_def
  apply (simp add: image_Un)
  by presburger


lemma validHeaderFieldName_loop_iff:
  "validHeaderFieldName_loop v \<longleftrightarrow> (\<forall>r\<in>set v. rfc7230_tchar r \<and> \<not> asciiUpper r)"
proof (induction v)
  case Nil
  show ?case by simp
next
  case (Cons r rs)
  show ?case
  proof (cases "r < 127")
    case True
    then have "isTokenTable ! (r mod 256) = rfc7230_tchar r"
      by (simp add: isTokenTable_nth tokenTableEntries_tchar)
    with True Cons show ?thesis
      by (auto simp: isTokenTable_length asciiUpper_def)
  next
    case False
    then have "\<not> rfc7230_tchar r"
      using rfc7230_tchar_bound by blast
    with False show ?thesis
      by (simp add: isTokenTable_length)
  qed
qed

lemma validHeaderFieldValue_iff:
  "validHeaderFieldValue bs \<longleftrightarrow> (\<forall>b\<in>set bs. \<not> ((b < 0x20 \<and> b \<noteq> 0x09) \<or> b = 0x7f))"
  by (induction bs) auto

text \<open>
  Claim C8.  \<^verbatim>\<open>validHeaderFieldName\<close> accepts a name exactly when it is not empty and each
  of its characters is an RFC 7230 token character that is not an upper-case ASCII letter;
  \<^verbatim>\<open>validHeaderFieldValue\<close> rejects every value that contains a NUL, a CR or an LF byte.
\<close>

theorem validHeaderField_spec:
  "(validHeaderFieldName v \<longleftrightarrow> v \<noteq> [] \<and> (\<forall>r\<in>set v. rfc7230_tchar r \<and> \<not> asciiUpper r))
   \<and> (0x00 \<in> set bs \<or> 0x0d \<in> set bs \<or> 0x0a \<in> set bs \<longrightarrow> \<not> validHeaderFieldValue bs)"
proof -
  have "validHeaderFieldName v \<longleftrightarrow> v \<noteq> [] \<and> (\<forall>r\<in>set v. rfc7230_tchar r \<and> \<not> asciiUpper r)"
    by (simp add: validHeaderFieldName_def validHeaderFieldName_loop_iff)
  moreover have "\<not> validHeaderFieldValue bs" if "0x00 \<in> set bs \<or> 0x0d \<in> set bs \<or> 0x0a \<in> set bs"
    using that unfolding validHeaderFieldValue_iff by fastforce
  ultimately show ?thesis by blast
qed

text \<open>
  The theorem at concrete names and values: a capital letter, a colon, a NUL and the empty
  name are rejected, a lower-case token is accepted, and a value with CR LF is rejected.
\<close>

theorem validHeaderField_spec_witness:
  "\<not> validHeaderFieldName (map of_char ''Content-Type'')
   \<and> \<not> validHeaderFieldName (map of_char ''a:b'')
   \<and> \<not> validHeaderFieldName [0]
   \<and> \<not> validHeaderFieldName []
   \<and> validHeaderFieldName (map of_char ''content-type'')
   \<and> \<not> validHeaderFieldValue [0x61, 0x0d, 0x0a]"
  using validHeaderField_spec [of "map of_char ''Content-Type''" "[0x61, 0x0d, 0x0a]"]
        validHeaderField_spec [of "map of_char ''a:b''" "[]"]
        validHeaderField_spec [of "[0]" "[]"]
        validHeaderField_spec [of "[]" "[]"]
        validHeaderField_spec [of "map of_char ''content-type''" "[]"]
  by (simp add: rfc7230_tchar_def asciiUpper_def)

section \<open>Properties of the forwarding pipeline\<close>

subsection \<open>The cap of 20 attempts\<close>

lemma selections_simps:
  "selections (emit es s) = selections s + length (filter (\<lambda>e. e = EvBalance) es)"
  "selections (incRetryTime s) = selections s"
  "selections (setErrCode c s) = selections s"
  "selections (s\<lparr>rq := r\<rparr>) = selections s"
  "selections (s\<lparr>res := b\<rparr>) = selections s"
  "selections (s\<lparr>err := e\<rparr>) = selections s"
  "selections (s\<lparr>act := a\<rparr>) = selections s"
  by (simp_all add: selections_def emit_def incRetryTime_def setErrCode_def)

lemma forwards_simps:
  "forwards (emit es s) = forwards s + length (filter is_RoundTrip es)"
  "forwards (incRetryTime s) = forwards s"
  "forwards (setErrCode c s) = forwards s"
  "forwards (s\<lparr>rq := r\<rparr>) = forwards s"
  "forwards (s\<lparr>res := b\<rparr>) = forwards s"
  "forwards (s\<lparr>err := e\<rparr>) = forwards s"
  "forwards (s\<lparr>act := a\<rparr>) = forwards s"
  by (simp_all add: forwards_def emit_def incRetryTime_def setErrCode_def)

lemma onRoundTripError_counts:
  assumes "onRoundTripError l b e s = (allowRetry, s')"
  shows "selections s' = selections s" and "forwards s' = forwards s"
  using assms by (cases e; auto simp: selections_simps forwards_simps split: if_splits)+

lemma clusterInvoke_forward_counts:
  "selections (flow_state (clusterInvoke_forward env i b s)) = selections s"
  "forwards (flow_state (clusterInvoke_forward env i b s)) = forwards s + 1"
  by (auto simp: clusterInvoke_forward_def Let_def selections_simps forwards_simps
           split: prod.splits option.splits dest: onRoundTripError_counts)

lemma clusterInvoke_body_counts:
  "selections (flow_state (clusterInvoke_body env i s)) = selections s + 1"
  "forwards (flow_state (clusterInvoke_body env i s)) \<le> forwards s + 1"
  by (auto simp: clusterInvoke_body_def Let_def selections_simps forwards_simps
        clusterInvoke_forward_counts
           split: balance_result.splits option.splits)

lemma clusterInvoke_loop_counts:
  "selections (clusterInvoke_loop env i s) \<le> selections s + (20 - i)
   \<and> forwards (clusterInvoke_loop env i s) \<le> forwards s + (20 - i)"
proof (induction env i s rule: clusterInvoke_loop.induct)
  case (1 env i s)
  show ?case
  proof (cases "i < 20")
    case False
    then show ?thesis by (simp add: clusterInvoke_loop.simps[of env i s])
  next
    case True
    note b = clusterInvoke_body_counts[of env i s]
    show ?thesis
    proof (cases "clusterInvoke_body env i s")
      case (Continue s')
      with True have "clusterInvoke_loop env i s = clusterInvoke_loop env (i + 1) s'"
        by (simp add: clusterInvoke_loop.simps[of env i s])
      moreover note "1.IH"[OF True Continue]
      ultimately show ?thesis using b Continue True by auto
    next
      case (Break s')
      with True have "clusterInvoke_loop env i s = s'"
        by (simp add: clusterInvoke_loop.simps[of env i s])
      then show ?thesis using b Break True by auto
    next
      case (Return s')
      with True have "clusterInvoke_loop env i s = s'"
        by (simp add: clusterInvoke_loop.simps[of env i s])
      then show ?thesis using b Return True by auto
    qed
  qed
qed

text \<open>
  Claim C1.  Whatever the balancer, the handlers and the transport do, and so whatever
  \<^verbatim>\<open>RetryMax\<close> and \<^verbatim>\<open>CrossRetry\<close> the cluster is configured with, serving one
  request makes at most 20 backend selections and at most 20 forward attempts.  The loop is a
  total function (its termination is proved with the measure \<^verbatim>\<open>20 - i\<close>), and each
  pass makes exactly one selection, so it is left after at most 20 passes.
\<close>

theorem clusterInvoke_attempts_le_20:
  "selections (clusterInvoke env request) \<le> 20 \<and> forwards (clusterInvoke env request) \<le> 20"
  using clusterInvoke_loop_counts
    [of env 0 "\<lparr>rq = request, res = False, act = NoAction, err = None, events = []\<rparr>"]
  by (auto simp: clusterInvoke_def selections_def forwards_def)


text \<open>The bound is reached: by 20 cross-retry selections, and by 20 failed connects.\<close>

lemma clusterInvoke_reaches_20:
  "selections (clusterInvoke crossRetryEnv (rq (startState exampleGet))) = 20"
  "forwards (clusterInvoke (failingEnv ConnectError RetryConnect) (rq (startState examplePost))) = 20"
  by code_simp+

subsection \<open>When a failed forward is retried\<close>

lemma OutRequest_simps:
  "OutRequest (rq (emit es s)) = OutRequest (rq s)"
  "OutRequest (rq (setErrCode c s)) = OutRequest (rq s)"
  by (simp_all add: emit_def setErrCode_def)

lemma onRoundTripError_allowRetry:
  "fst (onRoundTripError l b e s) \<longleftrightarrow>
     e = ConnectError \<or>
     ((\<exists>t. e = WriteRequestError t) \<or> e = ReadRespHeaderError \<or> e = RespHeaderTimeoutError
        \<or> e = TransportBrokenError) \<and> checkAllowRetry l (OutRequest (rq s))"
  by (cases e) simp_all

lemma checkAllowRetry_iff:
  "checkAllowRetry l outreq \<longleftrightarrow>
     l = RetryGet \<and> Method outreq = ''GET'' \<and>
     (Body outreq = BodyNil \<or> Body outreq = BodyEofReader \<or> Body outreq = BodySpdy True)"
  by (cases "Body outreq") (auto simp: checkAllowRetry_def checkRequestWithoutBody_def)

lemma clusterInvoke_forward_flow:
  assumes "RoundTrip env i (OutRequest (rq s)) = (Some e, outreq)"
  shows "(\<exists>s'. clusterInvoke_forward env i b s = Continue s') \<longleftrightarrow>
           e = ConnectError \<or>
           ((\<exists>t. e = WriteRequestError t) \<or> e = ReadRespHeaderError \<or> e = RespHeaderTimeoutError
              \<or> e = TransportBrokenError) \<and> checkAllowRetry (RetryLevel env) outreq"
    and "(\<exists>s'. clusterInvoke_forward env i b s = Continue s') \<or> (\<exists>s'. clusterInvoke_forward env i b s = Break s')"
proof -
  let ?s2 = "(emit [EvAddConnNum b, EvRoundTrip b] s)
     \<lparr>rq := (rq (emit [EvAddConnNum b, EvRoundTrip b] s))\<lparr>OutRequest := outreq\<rparr>,
      res := False, err := Some (RoundTripErr e)\<rparr>"
  obtain a s3 where r: "onRoundTripError (RetryLevel env) b e ?s2 = (a, s3)"
    by (cases "onRoundTripError (RetryLevel env) b e ?s2")
  have f: "clusterInvoke_forward env i b s = (if \<not> a then Break s3 else Continue (incRetryTime s3))"
    using assms r by (simp add: clusterInvoke_forward_def Let_def OutRequest_simps)
  have "a \<longleftrightarrow> fst (onRoundTripError (RetryLevel env) b e ?s2)"
    using r by simp
  then have a: "a \<longleftrightarrow> e = ConnectError \<or>
           ((\<exists>t. e = WriteRequestError t) \<or> e = ReadRespHeaderError \<or> e = RespHeaderTimeoutError
              \<or> e = TransportBrokenError) \<and> checkAllowRetry (RetryLevel env) outreq"
    by (simp add: onRoundTripError_allowRetry)
  show "(\<exists>s'. clusterInvoke_forward env i b s = Continue s') \<longleftrightarrow>
           e = ConnectError \<or>
           ((\<exists>t. e = WriteRequestError t) \<or> e = ReadRespHeaderError \<or> e = RespHeaderTimeoutError
              \<or> e = TransportBrokenError) \<and> checkAllowRetry (RetryLevel env) outreq"
    unfolding f a[symmetric] by simp
  show "(\<exists>s'. clusterInvoke_forward env i b s = Continue s') \<or> (\<exists>s'. clusterInvoke_forward env i b s = Break s')"
    unfolding f by simp
qed

lemma clusterInvoke_body_forward:
  assumes "Balance env i = Selected b"
    and "case ForwardHandlers env of None \<Rightarrow> True | Some FilterForward \<Rightarrow> FilterForward i \<noteq> BFE_HANDLER_FINISH"
  shows "\<exists>s1. OutRequest (rq s1) = OutRequest (rq s)
            \<and> clusterInvoke_body env i s = clusterInvoke_forward env i b s1"
proof -
  define s3 where "s3 = (case TransBackend (rq (emit [EvBalance] s\<lparr>err := None\<rparr>)) of
                      Some old \<Rightarrow> emit [EvDecConnNum old] (emit [EvBalance] s\<lparr>err := None\<rparr>)
                    | None \<Rightarrow> emit [EvBalance] s\<lparr>err := None\<rparr>)"
  define s4 where "s4 = s3\<lparr>rq := (rq s3)\<lparr>TransBackend := Some b\<rparr>\<rparr>"
  have o: "OutRequest (rq s4) = OutRequest (rq s)"
    by (simp add: s4_def s3_def OutRequest_simps split: option.splits)
  have body: "clusterInvoke_body env i s =
    (case ForwardHandlers env of
             Some FilterForward \<Rightarrow>
               if FilterForward i = BFE_HANDLER_FINISH
               then Return ((emit [EvFilterForward] s4)\<lparr>act := closeAfterReply\<rparr>)
               else clusterInvoke_forward env i b (emit [EvFilterForward] s4)
           | None \<Rightarrow> clusterInvoke_forward env i b s4)"
    using assms(1) unfolding s4_def s3_def by (simp add: clusterInvoke_body_def Let_def)
  show ?thesis
  proof (cases "ForwardHandlers env")
    case None
    with body o show ?thesis by auto
  next
    case (Some f)
    with assms(2) body have "clusterInvoke_body env i s = clusterInvoke_forward env i b (emit [EvFilterForward] s4)"
      by simp
    moreover have "OutRequest (rq (emit [EvFilterForward] s4)) = OutRequest (rq s)"
      using o by (simp add: OutRequest_simps)
    ultimately show ?thesis by blast
  qed
qed

text \<open>
  Claim C2.  Take a pass through the loop body in which a backend was selected, the forward
  handlers did not finish the request, and the round trip failed with error \<^verbatim>\<open>e\<close>,
  leaving the outbound request as \<^verbatim>\<open>outreq\<close>.  The pass ends in another iteration
  (a retry) exactly when \<^verbatim>\<open>e\<close> is a connect error, or \<^verbatim>\<open>e\<close> is a write-request,
  read-response-header, response-header-timeout or transport-broken error and the retry level
  is \<^verbatim>\<open>RetryGet\<close>, the method is GET and the outbound request has no entity body (no body,
  the EOF reader, or a SPDY body at its end).  In every other case the loop is left.
\<close>

theorem clusterInvoke_retry_allowed:
  assumes "Balance env i = Selected b"
    and "case ForwardHandlers env of None \<Rightarrow> True | Some FilterForward \<Rightarrow> FilterForward i \<noteq> BFE_HANDLER_FINISH"
    and "RoundTrip env i (OutRequest (rq s)) = (Some e, outreq)"
  shows "((\<exists>s'. clusterInvoke_body env i s = Continue s') \<longleftrightarrow>
            e = ConnectError \<or>
            ((\<exists>t. e = WriteRequestError t) \<or> e = ReadRespHeaderError \<or> e = RespHeaderTimeoutError
               \<or> e = TransportBrokenError)
            \<and> RetryLevel env = RetryGet \<and> Method outreq = ''GET''
            \<and> (Body outreq = BodyNil \<or> Body outreq = BodyEofReader \<or> Body outreq = BodySpdy True))
         \<and> ((\<nexists>s'. clusterInvoke_body env i s = Continue s') \<longrightarrow> (\<exists>s'. clusterInvoke_body env i s = Break s'))"
proof -
  obtain s1 where s1: "OutRequest (rq s1) = OutRequest (rq s)"
    "clusterInvoke_body env i s = clusterInvoke_forward env i b s1"
    using clusterInvoke_body_forward[OF assms(1,2)] by blast
  have rt: "RoundTrip env i (OutRequest (rq s1)) = (Some e, outreq)"
    using assms(3) s1(1) by simp
  show ?thesis
    unfolding s1(2) using clusterInvoke_forward_flow[OF rt, of b]
    by (simp add: checkAllowRetry_iff) blast
qed


text \<open>
  The theorem at concrete passes: a failed read of the response header is retried for a GET
  without body under \<^verbatim>\<open>RetryGet\<close>, not for a POST with a body, not under
  \<^verbatim>\<open>RetryConnect\<close>; a connect error is retried even for the POST.
\<close>

theorem clusterInvoke_retry_allowed_witness:
  "(\<exists>s'. clusterInvoke_body (failingEnv ReadRespHeaderError RetryGet) 0 (startState exampleGet) = Continue s')
   \<and> (\<exists>s'. clusterInvoke_body (failingEnv ReadRespHeaderError RetryGet) 0 (startState examplePost) = Break s')
   \<and> (\<exists>s'. clusterInvoke_body (failingEnv ReadRespHeaderError RetryConnect) 0 (startState exampleGet) = Break s')
   \<and> (\<exists>s'. clusterInvoke_body (failingEnv ConnectError RetryConnect) 0 (startState examplePost) = Continue s')"
  using clusterInvoke_retry_allowed [of "failingEnv ReadRespHeaderError RetryGet" 0 0 "startState exampleGet" ReadRespHeaderError exampleGet]
        clusterInvoke_retry_allowed [of "failingEnv ReadRespHeaderError RetryGet" 0 0 "startState examplePost" ReadRespHeaderError examplePost]
        clusterInvoke_retry_allowed [of "failingEnv ReadRespHeaderError RetryConnect" 0 0 "startState exampleGet" ReadRespHeaderError exampleGet]
        clusterInvoke_retry_allowed [of "failingEnv ConnectError RetryConnect" 0 0 "startState examplePost" ConnectError examplePost]
  by (simp add: failingEnv_def startState_def exampleGet_def examplePost_def RetryGet_def RetryConnect_def)

subsection \<open>The outbound request\<close>














section \<open>Properties of the host table\<close>

subsection \<open>The key of a host name\<close>

lemma reverseFqdnHost_loop_length: "length (reverseFqdnHost_loop r i j) = length r"
proof (induction r i j rule: reverseFqdnHost_loop.induct)
  case (1 r i j)
  then show ?case by (simp add: reverseFqdnHost_loop.simps[of r i j])
qed

lemma reverseFqdnHost_loop_nth:
  "j < length r \<Longrightarrow> k < length r \<Longrightarrow>
   reverseFqdnHost_loop r i j ! k = (if i \<le> k \<and> k \<le> j then r ! (i + j - k) else r ! k)"
proof (induction r i j arbitrary: k rule: reverseFqdnHost_loop.induct)
  case (1 r i j)
  show ?case
  proof (cases "i < j")
    case False
    then have "reverseFqdnHost_loop r i j = r"
      by (simp add: reverseFqdnHost_loop.simps[of r i j])
    moreover have "i + j - k = k" if "i \<le> k \<and> k \<le> j"
      using that False by arith
    ultimately show ?thesis by auto
  next
    case True
    let ?r = "r[i := r ! j, j := r ! i]"
    have step: "reverseFqdnHost_loop r i j = reverseFqdnHost_loop ?r (i + 1) (j - 1)"
      using True by (simp add: reverseFqdnHost_loop.simps[of r i j])
    have "reverseFqdnHost_loop ?r (i + 1) (j - 1) ! k =
            (if i + 1 \<le> k \<and> k \<le> j - 1 then ?r ! (i + 1 + (j - 1) - k) else ?r ! k)"
      using "1.IH"[OF True, of k] "1.prems" True by simp
    also have "\<dots> = (if i \<le> k \<and> k \<le> j then r ! (i + j - k) else r ! k)"
      using "1.prems" True by (auto simp: nth_list_update)
    finally show ?thesis using step by simp
  qed
qed

lemma reverseFqdnHost_loop_rev: "reverseFqdnHost_loop host 0 (length host - 1) = rev host"
proof (cases "host = []")
  case True
  then show ?thesis by (simp add: reverseFqdnHost_loop.simps[of "[]" 0 0])
next
  case False
  show ?thesis
  proof (rule nth_equalityI)
    show "length (reverseFqdnHost_loop host 0 (length host - 1)) = length (rev host)"
      by (simp add: reverseFqdnHost_loop_length)
  next
    fix k assume "k < length (reverseFqdnHost_loop host 0 (length host - 1))"
    then have k: "k < length host" by (simp add: reverseFqdnHost_loop_length)
    have j: "length host - 1 < length host" using k by simp
    have kj: "0 \<le> k \<and> k \<le> length host - 1" using k by arith
    have "reverseFqdnHost_loop host 0 (length host - 1) ! k = host ! (0 + (length host - 1) - k)"
      unfolding reverseFqdnHost_loop_nth[OF j k, of 0] using kj by (simp only: if_True simp_thms)
    also have "0 + (length host - 1) - k = length host - Suc k" by simp
    also have "host ! (length host - Suc k) = rev host ! k"
      using k by (simp add: rev_nth)
    finally show "reverseFqdnHost_loop host 0 (length host - 1) ! k = rev host ! k" .
  qed
qed

lemma reverseFqdnHost_rev:
  "reverseFqdnHost host = (if host \<noteq> [] \<and> last host = CHR ''.'' then rev (butlast host) else rev host)"
proof -
  have "reverseFqdnHost host =
          (if length (rev host) > 0 \<and> rev host ! 0 = CHR ''.'' then drop 1 (rev host) else rev host)"
    unfolding reverseFqdnHost_def reverseFqdnHost_loop_rev Let_def ..
  then show ?thesis
    by (cases host rule: rev_cases) simp_all
qed









subsection \<open>From host name to product\<close>

lemma findHostRoute_hostLookup:
  "findHostRoute t (Host (HttpRequest req)) =
     (case hostLookup t req of Some r \<Rightarrow> (r, None) | None \<Rightarrow> (emptyRoute, Some ErrNoProduct))"
  by (simp add: findHostRoute_def hostLookup_def Let_def split: option.splits)

lemma findVipRoute_vipLookup:
  "SessionVip req = Some vip \<Longrightarrow>
   findVipRoute t vip =
     (case vipLookup t req of Some r \<Rightarrow> (r, None) | None \<Rightarrow> (emptyRoute, Some ErrNoProduct))"
  by (cases "vipTable t") (simp_all add: findVipRoute_def vipLookup_def split: option.splits)

text \<open>
  Claim C7.  \<^verbatim>\<open>LookupHostTagAndProduct\<close> takes the route found for the host name; if
  there is none and the session has a VIP, the product found for the VIP; if there is still
  none and the default product is not empty, the default product; in these cases it returns no
  error.  It returns \<^verbatim>\<open>ErrNoProduct\<close> exactly when all three fail.
\<close>

theorem LookupHostTagAndProduct_fallback:
  "LookupHostTagAndProduct t req =
     (case resolveProduct t req of
        Some r \<Rightarrow>
          (req\<lparr>Route := (Route req)\<lparr>HostTag := tag r, Product := product r, Error := None\<rparr>\<rparr>, None)
      | None \<Rightarrow>
          (req\<lparr>Route := (Route req)\<lparr>HostTag := [], Product := [], Error := Some ErrNoProduct\<rparr>\<rparr>,
           Some ErrNoProduct))
   \<and> (snd (LookupHostTagAndProduct t req) =
        (if hostLookup t req = None \<and> vipLookup t req = None \<and> defaultProduct t = []
         then Some ErrNoProduct else None))"
proof (cases "SessionVip req")
  case None
  then show ?thesis
    by (simp add: LookupHostTagAndProduct_def findHostRoute_hostLookup resolveProduct_def
        vipLookup_def emptyRoute_def Let_def split: option.splits)
next
  case (Some vip)
  then show ?thesis
    by (simp add: LookupHostTagAndProduct_def findHostRoute_hostLookup findVipRoute_vipLookup
        resolveProduct_def emptyRoute_def Let_def split: option.splits)
qed


text \<open>
  The theorem on the example table: a host of the trie (with upper-case letters and a port);
  an unknown host with a VIP of the table; an unknown host without VIP, which gets the default
  product; and the same without default product, which fails.
\<close>

theorem LookupHostTagAndProduct_fallback_witness:
  "Product (Route (fst (LookupHostTagAndProduct exampleTable
      (exampleRequest ''News.Baidu.com:8080'' (Some ''10.0.0.1'') [])))) = ''P1''
   \<and> Product (Route (fst (LookupHostTagAndProduct exampleTable
      (exampleRequest ''www.example.com'' (Some ''10.0.0.1'') [])))) = ''P2''
   \<and> LookupHostTagAndProduct exampleTable (exampleRequest ''www.example.com'' None [])
      = ((exampleRequest ''www.example.com'' None [])
           \<lparr>Route := (Route (exampleRequest ''www.example.com'' None []))\<lparr>Product := ''P0''\<rparr>\<rparr>, None)
   \<and> snd (LookupHostTagAndProduct (exampleTable\<lparr>defaultProduct := []\<rparr>)
      (exampleRequest ''www.example.com'' (Some ''10.0.0.9'') [])) = Some ErrNoProduct"
  using LookupHostTagAndProduct_fallback [of exampleTable "exampleRequest ''News.Baidu.com:8080'' (Some ''10.0.0.1'') []"]
        LookupHostTagAndProduct_fallback [of exampleTable "exampleRequest ''www.example.com'' (Some ''10.0.0.1'') []"]
        LookupHostTagAndProduct_fallback [of exampleTable "exampleRequest ''www.example.com'' None []"]
        LookupHostTagAndProduct_fallback [of "exampleTable\<lparr>defaultProduct := []\<rparr>" "exampleRequest ''www.example.com'' (Some ''10.0.0.9'') []"]
  by (simp add: resolveProduct_def hostLookup_def vipLookup_def exampleTable_def exampleTrie_def
      exampleRequest_def exampleGet_def ToLower_def toLowerChar_def hostnameStrip_def
      reverseFqdnHost_rev)

subsection \<open>From product to cluster\<close>

lemma LookupCluster_loop_find:
  "LookupCluster_loop rules req c =
     (case find (\<lambda>rule. Cond rule req) rules of None \<Rightarrow> c | Some rule \<Rightarrow> rule_ClusterName rule)"
  by (induction rules) simp_all

lemma LookupCluster_eq:
  "LookupCluster t req =
     (case productRouteTable t (Product (Route req)) of
        None \<Rightarrow> routeFail req ErrNoProductRule
      | Some rules \<Rightarrow>
          (case find (\<lambda>rule. Cond rule req) rules of
             None \<Rightarrow> routeFail req ErrNoMatchRule
           | Some rule \<Rightarrow>
               if rule_ClusterName rule = [] then routeFail req ErrNoMatchRule
               else (req\<lparr>Route := (Route req)\<lparr>ClusterName := rule_ClusterName rule\<rparr>\<rparr>, None)))"
  by (simp add: LookupCluster_def routeFail_def LookupCluster_loop_find Let_def split: option.splits)

text \<open>
  Claim C6.  Without an entry for the request's product \<^verbatim>\<open>LookupCluster\<close> fails with
  \<^verbatim>\<open>ErrNoProductRule\<close>.  Otherwise the cluster name of the request becomes that of the
  first rule of the list whose condition matches, and no error is returned when that name is
  not empty; when no rule matches it fails with \<^verbatim>\<open>ErrNoMatchRule\<close>.  Whenever an error is
  returned the cluster name of the request is empty.
\<close>

theorem LookupCluster_first_match:
  "(productRouteTable t (Product (Route req)) = None \<longrightarrow>
      LookupCluster t req = routeFail req ErrNoProductRule)
   \<and> (\<forall>rules. productRouteTable t (Product (Route req)) = Some rules \<longrightarrow>
         (\<forall>rule. find (\<lambda>rule. Cond rule req) rules = Some rule \<longrightarrow>
            ClusterName (Route (fst (LookupCluster t req))) = rule_ClusterName rule
            \<and> (rule_ClusterName rule \<noteq> [] \<longrightarrow>
                 LookupCluster t req =
                   (req\<lparr>Route := (Route req)\<lparr>ClusterName := rule_ClusterName rule\<rparr>\<rparr>, None)))
         \<and> (find (\<lambda>rule. Cond rule req) rules = None \<longrightarrow>
              LookupCluster t req = routeFail req ErrNoMatchRule))
   \<and> (snd (LookupCluster t req) \<noteq> None \<longrightarrow> ClusterName (Route (fst (LookupCluster t req))) = [])"
proof (cases "productRouteTable t (Product (Route req))")
  case None
  then show ?thesis
    by (simp add: LookupCluster_eq routeFail_def)
next
  case (Some rules)
  show ?thesis
  proof (cases "find (\<lambda>rule. Cond rule req) rules")
    case None
    with Some show ?thesis
      by (simp add: LookupCluster_eq routeFail_def)
  next
    case (Some rule)
    with \<open>productRouteTable t (Product (Route req)) = Some rules\<close> show ?thesis
      by (simp add: LookupCluster_eq routeFail_def)
  qed
qed

text \<open>
  The theorem on the example table: the second rule of product \<^verbatim>\<open>P1\<close> is the first to
  match \<^verbatim>\<open>news.baidu.com\<close>; product \<^verbatim>\<open>P9\<close> has no rules; no rule of product
  \<^verbatim>\<open>P3\<close> matches.
\<close>

theorem LookupCluster_first_match_witness:
  "LookupCluster exampleTable (exampleRequest ''news.baidu.com'' None ''P1'')
     = ((exampleRequest ''news.baidu.com'' None ''P1'')
          \<lparr>Route := (Route (exampleRequest ''news.baidu.com'' None ''P1''))\<lparr>ClusterName := ''C_api''\<rparr>\<rparr>, None)
   \<and> LookupCluster exampleTable (exampleRequest ''news.baidu.com'' None ''P9'')
     = routeFail (exampleRequest ''news.baidu.com'' None ''P9'') ErrNoProductRule
   \<and> LookupCluster exampleTable (exampleRequest ''news.baidu.com'' None ''P3'')
     = routeFail (exampleRequest ''news.baidu.com'' None ''P3'') ErrNoMatchRule"
  using LookupCluster_first_match [of exampleTable "exampleRequest ''news.baidu.com'' None ''P1''"]
        LookupCluster_first_match [of exampleTable "exampleRequest ''news.baidu.com'' None ''P9''"]
        LookupCluster_first_match [of exampleTable "exampleRequest ''news.baidu.com'' None ''P3''"]
  by (simp add: exampleTable_def exampleRequest_def exampleGet_def hostIs_def anyRequest_def)

text \<open>
  Claim C10.  When the first rule whose condition matches has the empty string as its cluster
  name, \<^verbatim>\<open>LookupCluster\<close> fails with \<^verbatim>\<open>ErrNoMatchRule\<close>, and its result is the one
  it has for a rule list \<^verbatim>\<open>rules'\<close> of which no rule matches.
\<close>

theorem LookupCluster_empty_name:
  assumes "productRouteTable t (Product (Route req)) = Some rules"
    and "find (\<lambda>rule. Cond rule req) rules = Some rule"
    and "rule_ClusterName rule = []"
    and "find (\<lambda>rule. Cond rule req) rules' = None"
  shows "LookupCluster t req = routeFail req ErrNoMatchRule
         \<and> LookupCluster t req =
             LookupCluster (t\<lparr>productRouteTable := (productRouteTable t)(Product (Route req) \<mapsto> rules')\<rparr>) req"
  using assms by (simp add: LookupCluster_eq)

text \<open>
  The theorem on the example table: for product \<^verbatim>\<open>P2\<close> the first rule that matches has
  no cluster name; the rule after it, which matches too and has one, is not used.
\<close>

theorem LookupCluster_empty_name_witness:
  "LookupCluster exampleTable (exampleRequest ''news.baidu.com'' None ''P2'')
     = routeFail (exampleRequest ''news.baidu.com'' None ''P2'') ErrNoMatchRule
   \<and> LookupCluster exampleTable (exampleRequest ''news.baidu.com'' None ''P2'')
     = LookupCluster
         (exampleTable\<lparr>productRouteTable :=
            (productRouteTable exampleTable)(''P2'' \<mapsto> [hostIs ''other.baidu.com'' ''C_other''])\<rparr>)
         (exampleRequest ''news.baidu.com'' None ''P2'')"
proof -
  let ?req = "exampleRequest ''news.baidu.com'' None ''P2''"
  let ?rules = "[hostIs ''other.baidu.com'' ''C_other'', anyRequest [], anyRequest ''C_rest'']"
  have p: "Product (Route ?req) = ''P2''"
    by (simp add: exampleRequest_def)
  have t: "productRouteTable exampleTable (Product (Route ?req)) = Some ?rules"
    by (simp add: exampleTable_def exampleRequest_def)
  have m: "find (\<lambda>rule. Cond rule ?req) ?rules = Some (anyRequest [])"
    by (simp add: exampleRequest_def exampleGet_def hostIs_def anyRequest_def)
  have e: "rule_ClusterName (anyRequest []) = []"
    by (simp add: anyRequest_def)
  have n: "find (\<lambda>rule. Cond rule ?req) [hostIs ''other.baidu.com'' ''C_other''] = None"
    by (simp add: exampleRequest_def exampleGet_def hostIs_def)
  show ?thesis
    using LookupCluster_empty_name [OF t m e n] unfolding p .
qed

section \<open>Properties of the IP dictionary\<close>

subsection \<open>The insertion sort sorts\<close>

lemma insertionSort_inner_insert:
  assumes "sorted_wrt startGe (xs @ zs)" and "\<forall>z\<in>set zs. startGe y z"
  shows "\<exists>srt. insertionSort_inner (xs @ y # zs @ rest) (length xs) = srt @ rest
               \<and> sorted_wrt startGe srt \<and> mset srt = mset (xs @ y # zs)"
  using assms
proof (induction xs arbitrary: zs rule: rev_induct)
  case Nil
  have "insertionSort_inner (y # zs @ rest) 0 = y # zs @ rest"
    by (simp add: insertionSort_inner.simps[of _ 0])
  with Nil show ?case
    by (intro exI[of _ "y # zs"]) simp
next
  case (snoc w xs)
  let ?items = "(xs @ [w]) @ y # zs @ rest"
  have j: "?items ! length (xs @ [w]) = y" "?items ! (length (xs @ [w]) - 1) = w"
    by (simp_all add: nth_append)
  show ?case
  proof (cases "startGe y w")
    case True
    have sw: "Swap ?items (length (xs @ [w])) (length (xs @ [w]) - 1) = xs @ y # (w # zs) @ rest"
      unfolding Swap_def j by (simp add: list_update_append)
    have step: "insertionSort_inner ?items (length (xs @ [w])) =
                  insertionSort_inner (xs @ y # (w # zs) @ rest) (length xs)"
      using True j sw by (subst insertionSort_inner.simps) (simp add: Less_def)
    have s: "sorted_wrt startGe (xs @ (w # zs))"
      using snoc.prems(1) by simp
    have a: "\<forall>z\<in>set (w # zs). startGe y z"
      using snoc.prems(2) True by simp
    from snoc.IH[OF s a] obtain srt where
      "insertionSort_inner (xs @ y # (w # zs) @ rest) (length xs) = srt @ rest"
      "sorted_wrt startGe srt" "mset srt = mset (xs @ y # w # zs)"
      by blast
    with step show ?thesis
      by (intro exI[of _ srt]) (simp add: ac_simps)
  next
    case False
    have stop: "insertionSort_inner ?items (length (xs @ [w])) = ?items"
      using False j by (subst insertionSort_inner.simps) (simp add: Less_def)
    have "sorted_wrt startGe ((xs @ [w]) @ y # zs)"
      using snoc.prems False by (auto simp: sorted_wrt_append)
    with stop show ?thesis
      by (intro exI[of _ "(xs @ [w]) @ y # zs"]) simp
  qed
qed

lemma insertionSort_sorts:
  assumes "sorted_wrt startGe pre"
  shows "sorted_wrt startGe (insertionSort (pre @ rest) (length pre))
         \<and> mset (insertionSort (pre @ rest) (length pre)) = mset (pre @ rest)"
  using assms
proof (induction rest arbitrary: pre)
  case Nil
  then show ?case by (simp add: insertionSort.simps[of pre])
next
  case (Cons y rest)
  obtain srt where srt: "insertionSort_inner (pre @ y # [] @ rest) (length pre) = srt @ rest"
    "sorted_wrt startGe srt" "mset srt = mset (pre @ y # [])"
    using insertionSort_inner_insert[of pre "[]" y rest] Cons.prems by auto
  have len: "length srt = length pre + 1"
    using mset_eq_length[OF srt(3)] by simp
  have "insertionSort (pre @ y # rest) (length pre) = insertionSort (srt @ rest) (length srt)"
    using srt(1) len by (subst insertionSort.simps) simp
  with Cons.IH[OF srt(2)] srt(3) show ?case by simp
qed

lemma sort_Sort_sorted: "sorted_wrt startGe (sort_Sort items)"
  and sort_Sort_mset: "mset (sort_Sort items) = mset items"
proof -
  have "sorted_wrt startGe (sort_Sort items) \<and> mset (sort_Sort items) = mset items"
  proof (cases items)
    case Nil
    then show ?thesis by (simp add: sort_Sort_def insertionSort.simps[of "[]"])
  next
    case (Cons x xs)
    then show ?thesis
      using insertionSort_sorts[of "[x]" xs] by (simp add: sort_Sort_def)
  qed
  then show "sorted_wrt startGe (sort_Sort items)" and "mset (sort_Sort items) = mset items"
    by simp_all
qed

subsection \<open>The loops compute the merge on lists\<close>

lemma checkMerge_loop_segment:
  "checkMerge_loop (A @ B @ C) (length A) (length A + length B) n =
     (A @ clearSlots B @ C, n + countFull B)"
proof (induction B arbitrary: A n)
  case Nil
  show ?case by (simp add: checkMerge_loop.simps[of _ "length A"] clearSlots_def countFull_def)
next
  case (Cons b B)
  have k: "(A @ (b # B) @ C) ! length A = b" by simp
  show ?case
  proof (cases "emptySlot b")
    case True
    have "checkMerge_loop (A @ (b # B) @ C) (length A) (length A + length (b # B)) n =
          checkMerge_loop ((A @ [b]) @ B @ C) (length (A @ [b])) (length (A @ [b]) + length B) n"
      using True k by (subst checkMerge_loop.simps) (simp add: emptySlot_def)
    also note Cons.IH[of "A @ [b]" n]
    finally show ?thesis using True by (simp add: clearSlots_def countFull_def)
  next
    case False
    have "checkMerge_loop (A @ (b # B) @ C) (length A) (length A + length (b # B)) n =
          checkMerge_loop ((A @ [zeroPair]) @ B @ C) (length (A @ [zeroPair]))
            (length (A @ [zeroPair]) + length B) (n + 1)"
      using False k by (subst checkMerge_loop.simps) (simp add: emptySlot_def)
    also note Cons.IH[of "A @ [zeroPair]" "n + 1"]
    finally show ?thesis using False by (simp add: clearSlots_def countFull_def)
  qed
qed

lemma checkMerge_segment:
  "checkMerge (pre @ x # dn @ y # todo) (length pre) (length pre + 1 + length dn) =
     (if endIP y \<ge> startIP x
      then (pre @ mergePair x y # clearSlots dn @ zeroPair # todo, 1 + countFull dn)
      else (pre @ x # dn @ y # todo, 0))"
proof -
  let ?items0 = "pre @ x # dn @ y # todo"
  let ?i = "length pre" and ?j = "length pre + 1 + length dn"
  let ?x1 = "x\<lparr>startIP := startIP y\<rparr>"
  let ?items1 = "pre @ ?x1 # dn @ y # todo"
  let ?items2 = "pre @ mergePair x y # dn @ y # todo"
  let ?items3 = "pre @ mergePair x y # dn @ zeroPair # todo"
  have i: "?items0 ! ?i = x" by simp
  have j: "?items0 ! ?j = y" by (simp add: nth_append)
  have 1: "?items0[?i := ?x1] = ?items1"
    by (simp add: list_update_append)
  have i1: "?items1 ! ?i = ?x1" by simp
  have j1: "?items1 ! ?j = y" by (simp add: nth_append)
  have 2: "(if endIP y \<ge> endIP ?x1 then ?items1[?i := ?x1\<lparr>endIP := endIP y\<rparr>] else ?items1) = ?items2"
    by (simp add: list_update_append mergePair_def)
  have 3: "?items2[?j := zeroPair] = ?items3"
    by (simp add: list_update_append)
  have c: "checkMerge ?items0 ?i ?j =
          (if endIP y \<ge> startIP x then checkMerge_loop ?items3 (?i + 1) ?j 1 else (?items0, 0))"
    unfolding checkMerge_def Let_def i j 1 i1 j1 2 3 ..
  have "checkMerge_loop ((pre @ [mergePair x y]) @ dn @ (zeroPair # todo))
          (length (pre @ [mergePair x y])) (length (pre @ [mergePair x y]) + length dn) 1 =
        ((pre @ [mergePair x y]) @ clearSlots dn @ (zeroPair # todo), 1 + countFull dn)"
    by (rule checkMerge_loop_segment)
  then have "checkMerge_loop ?items3 (?i + 1) ?j 1 =
               (pre @ mergePair x y # clearSlots dn @ zeroPair # todo, 1 + countFull dn)"
    by simp
  with c show ?thesis by simp
qed

lemma mergeItems_inner_absorb:
  assumes "absorb x dn todo n = (x', dn', n')"
  shows "mergeItems_inner (pre @ x # dn @ todo) (length pre) (length pre + 1 + length dn)
           (length (pre @ x # dn @ todo)) n = (pre @ x' # dn', n')"
  using assms
proof (induction x dn todo n rule: absorb.induct)
  case (1 x dn n)
  then show ?case
    by (simp add: mergeItems_inner.simps[of _ "length pre"])
next
  case (2 x dn y todo n)
  let ?items = "pre @ x # dn @ y # todo"
  let ?i = "length pre" and ?j = "length pre + 1 + length dn"
  have i: "?items ! ?i = x" by simp
  have j: "?items ! ?j = y" by (simp add: nth_append)
  have lt: "?j < length ?items" by simp
  show ?case
  proof (cases "endIP y = IPv6zero \<or> endIP x = IPv4zero")
    case True
    have "mergeItems_inner ?items ?i ?j (length ?items) n =
          mergeItems_inner ?items ?i (?j + 1) (length ?items) n"
      using True lt unfolding mergeItems_inner.simps[of ?items ?i ?j] i j by simp
    moreover have "absorb x (dn @ [y]) todo n = (x', dn', n')"
      using "2.prems" True by simp
    ultimately show ?thesis
      using "2.IH"(1)[OF True] by simp
  next
    case False
    show ?thesis
    proof (cases "endIP y \<ge> startIP x")
      case True
      have cm: "checkMerge ?items ?i ?j =
                  (pre @ mergePair x y # clearSlots dn @ zeroPair # todo, 1 + countFull dn)"
        using True checkMerge_segment[of pre x dn y todo] by simp
      have "mergeItems_inner ?items ?i ?j (length ?items) n =
            mergeItems_inner (pre @ mergePair x y # clearSlots dn @ zeroPair # todo) ?i (?j + 1)
              (length ?items) (n + (1 + countFull dn))"
        using False lt unfolding mergeItems_inner.simps[of ?items ?i ?j] i j cm by simp
      moreover have "absorb (mergePair x y) (clearSlots dn @ [zeroPair]) todo (n + 1 + countFull dn) = (x', dn', n')"
        using "2.prems" False True by simp
      ultimately show ?thesis
        using "2.IH"(2)[OF False True] by (simp add: add.assoc)
    next
      case nov: False
      have cm: "checkMerge ?items ?i ?j = (?items, 0)"
        using nov checkMerge_segment[of pre x dn y todo] by simp
      have "mergeItems_inner ?items ?i ?j (length ?items) n =
            mergeItems_inner ?items ?i (?j + 1) (length ?items) n"
        using False lt unfolding mergeItems_inner.simps[of ?items ?i ?j] i j cm by simp
      moreover have "absorb x (dn @ [y]) todo n = (x', dn', n')"
        using "2.prems" False nov by simp
      ultimately show ?thesis
        using "2.IH"(3)[OF False nov] by simp
    qed
  qed
qed

lemma mergeItems_outer_mergeList:
  "mergeItems_outer (pre @ xs) (length pre) (length (pre @ xs)) n =
     (pre @ fst (mergeList xs n), snd (mergeList xs n))"
proof (induction xs n arbitrary: pre rule: mergeList.induct)
  case (1 n)
  show ?case by (simp add: mergeItems_outer.simps[of pre])
next
  case (2 x n)
  show ?case by (simp add: mergeItems_outer.simps[of "pre @ [x]"])
next
  case (3 x y ys n)
  let ?items = "pre @ x # y # ys"
  have i: "?items ! length pre = x" by simp
  have lt: "length pre + 1 < length ?items" by simp
  show ?case
  proof (cases "emptySlot x")
    case True
    have "mergeItems_outer ?items (length pre) (length ?items) n =
          mergeItems_outer ((pre @ [x]) @ y # ys) (length (pre @ [x])) (length ((pre @ [x]) @ y # ys)) n"
      using True lt unfolding mergeItems_outer.simps[of ?items "length pre"] i
      by (simp add: emptySlot_def)
    also note "3.IH"(1)[OF True, of "pre @ [x]"]
    finally show ?thesis using True by (simp add: case_prod_unfold)
  next
    case False
    obtain x' ys' n' where ab: "absorb x [] (y # ys) n = (x', ys', n')"
      by (cases "absorb x [] (y # ys) n") auto
    have len: "length ys' = length (y # ys)"
      using length_absorb[OF ab] by simp
    have inner: "mergeItems_inner ?items (length pre) (length pre + 1) (length ?items) n = (pre @ x' # ys', n')"
      using mergeItems_inner_absorb[OF ab, of pre] by simp
    have "mergeItems_outer ?items (length pre) (length ?items) n =
          mergeItems_outer ((pre @ [x']) @ ys') (length (pre @ [x'])) (length ((pre @ [x']) @ ys')) n'"
      using False lt len unfolding mergeItems_outer.simps[of ?items "length pre"] i inner
      by (simp add: emptySlot_def)
    also note "3.IH"(2)[OF False ab[symmetric] refl, of "pre @ [x']"]
    finally show ?thesis using False ab by (simp add: case_prod_unfold)
  qed
qed

lemma mergeItems_mergeList: "mergeItems items = mergeList items 0"
  using mergeItems_outer_mergeList[of "[]" items 0] by (simp add: mergeItems_def)

subsection \<open>The merge on lists\<close>

lemma validPair_not_zeroPair: "validPair p \<Longrightarrow> p \<noteq> zeroPair"
  by (auto simp: validPair_def zeroPair_def)

lemma not_validPair_zeroPair [simp]: "\<not> validPair zeroPair"
  by (simp add: validPair_def zeroPair_def)

lemma slot_emptySlot: "slot p \<Longrightarrow> emptySlot p \<longleftrightarrow> p = zeroPair"
  by (auto simp: slot_def emptySlot_def validPair_def zeroPair_def)

lemma slot_endIP_zero: "slot p \<Longrightarrow> endIP p = IPv6zero \<longleftrightarrow> p = zeroPair"
  by (auto simp: slot_def validPair_def zeroPair_def)

lemma slot_cases: "slot p \<Longrightarrow> p \<noteq> zeroPair \<Longrightarrow> validPair p"
  by (simp add: slot_def)

lemma cover_simps [simp]:
  "cover [] = {}"
  "cover (p # ps) = (if p = zeroPair then {} else {startIP p..endIP p}) \<union> cover ps"
  "cover (ps @ qs) = cover ps \<union> cover qs"
  by (auto simp: cover_def addresses_def)

lemma countFull_simps [simp]:
  "countFull [] = 0"
  "countFull (p # ps) = (if emptySlot p then 0 else 1) + countFull ps"
  "countFull (ps @ qs) = countFull ps + countFull qs"
  by (simp_all add: countFull_def)

lemma clearSlots_slots:
  assumes "\<forall>p\<in>set ps. slot p"
  shows "clearSlots ps = replicate (length ps) zeroPair"
  using assms by (induction ps) (auto simp: clearSlots_def slot_emptySlot)

lemma cover_replicate_zeroPair [simp]: "cover (replicate k zeroPair) = {}"
  by (induction k) simp_all

lemma countFull_replicate_zeroPair [simp]: "countFull (replicate k zeroPair) = 0"
  by (induction k) (simp_all add: emptySlot_def zeroPair_def)

lemma validPair_mergePair:
  "validPair x \<Longrightarrow> validPair y \<Longrightarrow> validPair (mergePair x y)"
  by (auto simp: validPair_def mergePair_def)

lemma cover_merge:
  assumes "validPair x" "validPair y" "startIP y \<le> startIP x" "startIP x \<le> endIP y"
    and "\<forall>p\<in>set dn. slot p"
    and "\<forall>p\<in>set dn. validPair p \<longrightarrow> endIP p < startIP x \<and> startIP y \<le> startIP p"
  shows "cover [mergePair x y] = cover (x # dn @ [y])"
proof -
  have m: "mergePair x y \<noteq> zeroPair" "x \<noteq> zeroPair" "y \<noteq> zeroPair"
    using assms(1,2) validPair_mergePair validPair_not_zeroPair by blast+
  have xy: "{startIP (mergePair x y)..endIP (mergePair x y)} = {startIP x..endIP x} \<union> {startIP y..endIP y}"
    using assms(1-4) by (auto simp: mergePair_def validPair_def)
  have "cover dn \<subseteq> {startIP y..endIP x}"
  proof
    fix a assume "a \<in> cover dn"
    then obtain p where p: "p \<in> set dn" "p \<noteq> zeroPair" "startIP p \<le> a" "a \<le> endIP p"
      by (auto simp: cover_def addresses_def)
    then have "validPair p" using assms(5) slot_cases by blast
    with p assms(6) have "endIP p < startIP x" "startIP y \<le> startIP p" by blast+
    with p assms(1) show "a \<in> {startIP y..endIP x}"
      by (auto simp: validPair_def)
  qed
  also have "\<dots> \<subseteq> {startIP x..endIP x} \<union> {startIP y..endIP y}"
    using assms(3,4) by auto
  finally show ?thesis
    using m xy by auto
qed

lemma sorted_wrt_startGeV_zeroPairs [simp]: "sorted_wrt startGeV (replicate k zeroPair)"
  by (induction k) (auto simp: startGeV_def)

lemma emptySlot_zeroPair [simp]: "emptySlot zeroPair"
  by (simp add: emptySlot_def zeroPair_def)

lemma endIP_in_cover:
  assumes "q \<in> set ps" and "validPair q"
  shows "endIP q \<in> cover ps"
proof -
  have "q \<noteq> zeroPair" using assms(2) by (rule validPair_not_zeroPair)
  moreover have "startIP q \<le> endIP q" using assms(2) by (simp add: validPair_def)
  ultimately show ?thesis
    using assms(1) by (auto simp: cover_def addresses_def intro!: bexI[of _ q])
qed

lemma absorb_inv:
  assumes "absorbInv x dn todo" and "absorb x dn todo n = (x', dn', n')"
  shows "absorbInv x' dn' [] \<and> cover (x' # dn') = cover (x # dn @ todo)
         \<and> n' + countFull dn' = n + countFull (dn @ todo)"
  using assms
proof (induction x dn todo n rule: absorb.induct)
  case (1 x dn n)
  then show ?case by simp
next
  case (2 x dn y todo n)
  note inv = "2.prems"(1)
  have vx: "validPair x" and sl: "\<forall>p\<in>set (dn @ y # todo). slot p"
    and srt: "sorted_wrt startGeV (x # dn @ y # todo)"
    and pend: "\<forall>p\<in>set dn. validPair p \<longrightarrow> endIP p < startIP x"
    using inv by (simp_all add: absorbInv_def)
  have sy: "slot y" using sl by simp
  have x4: "endIP x \<noteq> IPv4zero" using vx by (simp add: validPair_def)
  show ?case
  proof (cases "endIP y = IPv6zero \<or> endIP x = IPv4zero")
    case True
    then have y0: "y = zeroPair" using x4 sy slot_endIP_zero by blast
    have ab: "absorb x (dn @ [y]) todo n = (x', dn', n')"
      using "2.prems"(2) True by simp
    have "absorbInv x (dn @ [y]) todo"
      using inv y0 by (simp add: absorbInv_def)
    from "2.IH"(1)[OF True this ab] show ?thesis by simp
  next
    case False
    then have vy: "validPair y" using sy slot_endIP_zero slot_cases by blast
    have ey: "\<not> emptySlot y" using vy sy slot_emptySlot validPair_not_zeroPair by blast
    have yx: "startIP y \<le> startIP x"
      using srt vx vy by (auto simp: startGeV_def sorted_wrt_append)
    show ?thesis
    proof (cases "endIP y \<ge> startIP x")
      case True
      have ab: "absorb (mergePair x y) (clearSlots dn @ [zeroPair]) todo (n + 1 + countFull dn) = (x', dn', n')"
        using "2.prems"(2) False True by simp
      have cs: "clearSlots dn = replicate (length dn) zeroPair"
        using sl by (intro clearSlots_slots) simp
      have dny: "\<forall>p\<in>set dn. validPair p \<longrightarrow> endIP p < startIP x \<and> startIP y \<le> startIP p"
        using pend srt vy by (auto simp: startGeV_def sorted_wrt_append)
      have todo_le: "\<forall>q\<in>set todo. validPair q \<longrightarrow> startIP q \<le> startIP y"
        using srt vy by (auto simp: startGeV_def sorted_wrt_append)
      have todo_srt: "sorted_wrt startGeV todo"
        using srt by (simp add: sorted_wrt_append)
      have inv': "absorbInv (mergePair x y) (clearSlots dn @ [zeroPair]) todo"
        unfolding absorbInv_def cs
        using validPair_mergePair[OF vx vy] sl todo_le todo_srt
        by (auto simp: slot_def startGeV_def sorted_wrt_append mergePair_def)
      have cov: "cover [mergePair x y] = cover (x # dn @ [y])"
        using cover_merge[OF vx vy yx True _ dny] sl by simp
      have "cover (mergePair x y # (clearSlots dn @ [zeroPair]) @ todo) = cover [mergePair x y] \<union> cover todo"
        unfolding cs by simp
      also have "\<dots> = cover (x # dn @ y # todo)"
        unfolding cov by auto
      finally have cov': "cover (mergePair x y # (clearSlots dn @ [zeroPair]) @ todo) = cover (x # dn @ y # todo)" .
      have cnt: "n + 1 + countFull dn + countFull ((clearSlots dn @ [zeroPair]) @ todo) = n + countFull (dn @ y # todo)"
        unfolding cs using ey by simp
      from "2.IH"(2)[OF False True inv' ab] cov' cnt show ?thesis by simp
    next
      case nov: False
      have ab: "absorb x (dn @ [y]) todo n = (x', dn', n')"
        using "2.prems"(2) False nov by simp
      have "absorbInv x (dn @ [y]) todo"
        using inv nov by (auto simp: absorbInv_def)
      from "2.IH"(3)[OF False nov this ab] show ?thesis by simp
    qed
  qed
qed

lemma mergeList_post:
  assumes "mergePre xs" and "mergeList xs n = (r, n')"
  shows "(\<forall>p\<in>set r. slot p) \<and> sorted_wrt belowV r \<and> cover r = cover xs
         \<and> n' + countFull r = n + countFull xs \<and> length r = length xs"
  using assms
proof (induction xs n arbitrary: r n' rule: mergeList.induct)
  case (1 n)
  then show ?case by simp
next
  case (2 x n)
  then show ?case by (auto simp: mergePre_def)
next
  case (3 x y ys n)
  have sl: "\<forall>p\<in>set (x # y # ys). slot p" and srt: "sorted_wrt startGeV (x # y # ys)"
    using "3.prems"(1) by (simp_all add: mergePre_def)
  show ?case
  proof (cases "emptySlot x")
    case True
    then have x0: "x = zeroPair" using sl slot_emptySlot by simp
    obtain r1 n1 where m: "mergeList (y # ys) n = (r1, n1)"
      by (cases "mergeList (y # ys) n") auto
    have r: "r = x # r1" "n' = n1"
      using "3.prems"(2) True m by simp_all
    have pre: "mergePre (y # ys)"
      using sl srt by (simp add: mergePre_def)
    from "3.IH"(1)[OF True pre m]
    have slr: "\<forall>p\<in>set r1. slot p" and srtr: "sorted_wrt belowV r1"
      and covr: "cover r1 = cover (y # ys)" and cntr: "n1 + countFull r1 = n + countFull (y # ys)"
      and lenr: "length r1 = length (y # ys)"
      by simp_all
    have s1: "\<forall>p\<in>set (x # r1). slot p"
      using slr x0 by (simp add: slot_def)
    have s2: "sorted_wrt belowV (x # r1)"
      using srtr x0 by (simp add: belowV_def)
    have s3: "cover (x # r1) = cover (x # y # ys)"
      using covr by simp
    have s4: "n1 + countFull (x # r1) = n + countFull (x # y # ys)"
      using cntr True by simp
    have len: "length (x # r1) = length (x # y # ys)"
      using lenr by simp
    show ?thesis
      unfolding r using s1 s2 s3 s4 len by blast
  next
    case False
    then have vx: "validPair x" using sl slot_emptySlot slot_cases by auto
    obtain x1 ys1 n1 where ab: "absorb x [] (y # ys) n = (x1, ys1, n1)"
      by (cases "absorb x [] (y # ys) n") auto
    obtain r1 n2 where m: "mergeList ys1 n1 = (r1, n2)"
      by (cases "mergeList ys1 n1") auto
    have r: "r = x1 # r1" "n' = n2"
      using "3.prems"(2) False ab m by simp_all
    have "absorbInv x [] (y # ys)"
      using vx sl srt by (simp add: absorbInv_def)
    from absorb_inv[OF this ab]
    have inv1: "absorbInv x1 ys1 []" and cov1: "cover (x1 # ys1) = cover (x # y # ys)"
      and cnt1: "n1 + countFull ys1 = n + countFull (y # ys)"
      by simp_all
    have vx1: "validPair x1" and sl1: "\<forall>p\<in>set ys1. slot p"
      and below1: "\<forall>p\<in>set ys1. validPair p \<longrightarrow> endIP p < startIP x1"
      and srt1: "sorted_wrt startGeV ys1"
      using inv1 by (simp_all add: absorbInv_def)
    have pre1: "mergePre ys1"
      using sl1 srt1 by (simp add: mergePre_def)
    from "3.IH"(2)[OF False ab[symmetric] refl pre1 m]
    have slr: "\<forall>p\<in>set r1. slot p" and srtr: "sorted_wrt belowV r1"
      and covr: "cover r1 = cover ys1" and cntr: "n2 + countFull r1 = n1 + countFull ys1"
      and lenr: "length r1 = length ys1"
      by simp_all
    have belowr: "endIP q < startIP x1" if "q \<in> set r1" "validPair q" for q
    proof -
      have "endIP q \<in> cover r1"
        using that by (rule endIP_in_cover)
      then have "endIP q \<in> cover ys1" using covr by simp
      then obtain p where p: "p \<in> set ys1" "p \<noteq> zeroPair" "endIP q \<le> endIP p"
        by (auto simp: cover_def addresses_def)
      then have "validPair p" using sl1 slot_cases by blast
      with p below1 show ?thesis by fastforce
    qed
    have ex1: "\<not> emptySlot x1"
      using vx1 slot_emptySlot[of x1] validPair_not_zeroPair by (auto simp: slot_def)
    have ex: "\<not> emptySlot x" by (rule False)
    have "length ys1 = length (y # ys)"
      using length_absorb[OF ab] by simp
    then have len: "length (x1 # r1) = length (x # y # ys)"
      using lenr by simp
    have s1: "\<forall>p\<in>set (x1 # r1). slot p"
      using slr vx1 by (simp add: slot_def)
    have s2: "sorted_wrt belowV (x1 # r1)"
      using srtr belowr by (simp add: belowV_def)
    have s3: "cover (x1 # r1) = cover (x # y # ys)"
      using covr cov1 by simp
    have s4: "n2 + countFull (x1 # r1) = n + countFull (x # y # ys)"
      using cntr cnt1 ex1 ex by simp
    show ?thesis
      unfolding r using s1 s2 s3 s4 len by blast
  qed
qed

subsection \<open>Sort\<close>

lemma sorted_wrt_either:
  "sorted_wrt P xs \<Longrightarrow> x \<in> set xs \<Longrightarrow> y \<in> set xs \<Longrightarrow> x \<noteq> y \<Longrightarrow> P x y \<or> P y x"
  by (induction xs) auto

lemma sorted_wrt_irrefl_distinct:
  "sorted_wrt P xs \<Longrightarrow> \<forall>x\<in>set xs. \<not> P x x \<Longrightarrow> distinct xs"
  by (induction xs) auto

lemma sorted_wrt_strengthen:
  "sorted_wrt R xs \<Longrightarrow> distinct xs \<Longrightarrow>
   (\<And>x y. x \<in> set xs \<Longrightarrow> y \<in> set xs \<Longrightarrow> x \<noteq> y \<Longrightarrow> R x y \<Longrightarrow> Q x y) \<Longrightarrow> sorted_wrt Q xs"
  by (induction xs) auto

lemma take_countFull:
  assumes "\<forall>p\<in>set l. slot p" and "sorted_wrt startGe l"
  shows "take (countFull l) l = filter validPair l"
  using assms
proof (induction l)
  case Nil
  show ?case by simp
next
  case (Cons x l)
  show ?case
  proof (cases "x = zeroPair")
    case False
    then have "validPair x" "\<not> emptySlot x"
      using Cons.prems(1) slot_cases slot_emptySlot by auto
    then show ?thesis using Cons by simp
  next
    case True
    have "\<not> validPair p" if "p \<in> set l" for p
    proof
      assume "validPair p"
      then have "IPv6zero < startIP p" by (simp add: validPair_def)
      moreover have "startIP p \<le> startIP x" using Cons.prems(2) that by simp
      ultimately show False using True by (simp add: zeroPair_def IPv6zero_def)
    qed
    then have "filter validPair l = []" "\<forall>p\<in>set l. p = zeroPair"
      using Cons.prems(1) by (auto simp: slot_def filter_empty_conv)
    then have "countFull l = 0"
      by (auto simp: countFull_def filter_empty_conv)
    with True \<open>filter validPair l = []\<close> show ?thesis by simp
  qed
qed

lemma countFull_mset: "mset xs = mset ys \<Longrightarrow> countFull xs = countFull ys"
  unfolding countFull_def by (metis mset_filter size_mset)

lemma countFull_valid: "\<forall>p\<in>set xs. validPair p \<Longrightarrow> countFull xs = length xs"
  by (induction xs) (auto simp: slot_emptySlot slot_def dest: validPair_not_zeroPair)

lemma cover_valid: "\<forall>p\<in>set xs. validPair p \<Longrightarrow> cover xs = addresses xs"
  by (induction xs) (auto simp: addresses_def dest: validPair_not_zeroPair)

lemma cover_filter_valid: "\<forall>p\<in>set xs. slot p \<Longrightarrow> addresses (filter validPair xs) = cover xs"
  by (induction xs) (auto simp: addresses_def slot_def dest: validPair_not_zeroPair)

lemma addresses_set: "set xs = set ys \<Longrightarrow> addresses xs = addresses ys"
  by (simp add: addresses_def)

lemma Sort_correct:
  assumes "\<forall>p\<in>set items. validPair p"
  shows "\<exists>out. Sort items = Some out \<and> sorted_wrt below out \<and> (\<forall>p\<in>set out. validPair p)
               \<and> addresses out = addresses items \<and> length out \<le> length items"
proof -
  let ?items1 = "sort_Sort items"
  obtain items2 mergedNum where m: "mergeItems ?items1 = (items2, mergedNum)"
    by (cases "mergeItems ?items1") auto
  let ?items3 = "sort_Sort items2"
  have set1: "set ?items1 = set items"
    using sort_Sort_mset[of items] by (rule mset_eq_setD)
  then have v1: "\<forall>p\<in>set ?items1. validPair p" using assms by simp
  have pre: "mergePre ?items1"
    unfolding mergePre_def
    using v1 sorted_wrt_mono_rel[OF _ sort_Sort_sorted[of items], of startGeV]
    by (auto simp: slot_def startGeV_def)
  from mergeList_post[OF pre m[unfolded mergeItems_mergeList]]
  have sl2: "\<forall>p\<in>set items2. slot p" and srt2: "sorted_wrt belowV items2"
    and cov2: "cover items2 = cover ?items1" and cnt2: "mergedNum + countFull items2 = countFull ?items1"
    and len2: "length items2 = length ?items1"
    by simp_all
  have len1: "length ?items1 = length items"
    using sort_Sort_mset[of items] by (rule mset_eq_length)
  have cnt1: "countFull ?items1 = length items"
    using countFull_valid[OF v1] len1 by simp
  have mset3: "mset ?items3 = mset items2" by (rule sort_Sort_mset)
  have len3: "length ?items3 = length items2" using mset3 by (rule mset_eq_length)
  have set3: "set ?items3 = set items2" using mset3 by (rule mset_eq_setD)
  have cnt3: "countFull ?items3 = countFull items2" using mset3 by (rule countFull_mset)
  have n: "length ?items3 - mergedNum = countFull ?items3" "\<not> mergedNum > length ?items3"
    using cnt2 cnt1 cnt3 len3 len2 len1 by simp_all
  let ?out = "filter validPair ?items3"
  have sl3: "\<forall>p\<in>set ?items3. slot p" using sl2 set3 by simp
  have out: "take (length ?items3 - mergedNum) ?items3 = ?out"
    unfolding n(1) using take_countFull[OF sl3 sort_Sort_sorted] .
  have S: "Sort items = Some ?out"
    using m n(2) out by (simp add: Sort_def Let_def)
  let ?A = "filter validPair items2"
  have A: "sorted_wrt below ?A"
    using sorted_wrt_mono_rel[OF _ sorted_wrt_filter[OF srt2, of validPair], of below]
    by (simp add: belowV_def below_def)
  have "\<forall>p\<in>set ?A. \<not> below p p"
    by (auto simp: below_def validPair_def)
  with A have dA: "distinct ?A" by (rule sorted_wrt_irrefl_distinct)
  have msetB: "mset ?out = mset ?A" using mset3 by simp
  then have dB: "distinct ?out" using dA mset_eq_imp_distinct_iff by blast
  have setB: "set ?out = set ?A" using msetB by (rule mset_eq_setD)
  have B: "sorted_wrt startGe ?out"
    using sorted_wrt_filter[OF sort_Sort_sorted] .
  have sb: "sorted_wrt below ?out"
  proof (rule sorted_wrt_strengthen[OF B dB])
    fix x y assume xy: "x \<in> set ?out" "y \<in> set ?out" "x \<noteq> y" "startGe x y"
    then have "below x y \<or> below y x"
      using sorted_wrt_either[OF A] setB by blast
    moreover have "\<not> below y x"
      using xy by (auto simp: below_def validPair_def)
    ultimately show "below x y" by blast
  qed
  have "addresses ?out = cover ?items3"
    using cover_filter_valid[OF sl3] .
  also have "\<dots> = cover items2"
    using set3 by (simp add: cover_def addresses_def)
  also have "\<dots> = cover ?items1" by (rule cov2)
  also have "\<dots> = addresses ?items1" using cover_valid[OF v1] .
  also have "\<dots> = addresses items" using set1 by (rule addresses_set)
  finally have ad: "addresses ?out = addresses items" .
  have "length ?out \<le> length ?items3" by simp
  then have "length ?out \<le> length items" using len3 len2 len1 by simp
  with S sb ad show ?thesis by auto
qed




subsection \<open>Sort twice\<close>

text \<open>
  An array of ranges in which each lies wholly below the ones before it is left as it is by
  \<^verbatim>\<open>Sort\<close>; so on ranges, which exclude the two values taken for empty slots, a second
  \<^verbatim>\<open>Sort\<close> changes nothing.
\<close>

lemma insertionSort_inner_sorted:
  assumes "sorted_wrt (\<lambda>p q. startIP q < startIP p) items" and "i < length items"
  shows "insertionSort_inner items i = items"
proof (cases "i > 0")
  case False
  then show ?thesis by (simp add: insertionSort_inner.simps[of items 0])
next
  case True
  then have "startIP (items ! i) < startIP (items ! (i - 1))"
    using assms sorted_wrt_nth_less[OF assms(1), of "i - 1" i] by simp
  then have "\<not> Less items i (i - 1)"
    by (simp add: Less_def not_le)
  then show ?thesis
    by (simp add: insertionSort_inner.simps[of items i])
qed

lemma insertionSort_sorted_id:
  "sorted_wrt (\<lambda>p q. startIP q < startIP p) items \<Longrightarrow> insertionSort items i = items"
proof (induction items i rule: insertionSort.induct)
  case (1 items i)
  show ?case
  proof (cases "i < length items")
    case False
    then show ?thesis by (simp add: insertionSort.simps[of items i])
  next
    case True
    have inner: "insertionSort_inner items i = items"
      using insertionSort_inner_sorted[OF "1.prems" True] .
    have "insertionSort items i = insertionSort items (i + 1)"
      using True inner by (simp add: insertionSort.simps[of items i])
    also have "\<dots> = items"
      using "1.IH"[OF True] "1.prems" unfolding inner .
    finally show ?thesis .
  qed
qed

lemma absorb_nothing:
  assumes "validPair x" and "\<forall>y\<in>set todo. validPair y \<and> endIP y < startIP x"
  shows "absorb x dn todo n = (x, dn @ todo, n)"
  using assms(2)
proof (induction todo arbitrary: dn)
  case Nil
  show ?case by simp
next
  case (Cons y todo)
  have "endIP y \<noteq> IPv6zero" "endIP x \<noteq> IPv4zero" "\<not> endIP y \<ge> startIP x"
    using Cons.prems assms(1) by (auto simp: validPair_def)
  then have "absorb x dn (y # todo) n = absorb x (dn @ [y]) todo n"
    by simp
  with Cons.IH[of "dn @ [y]"] Cons.prems show ?case by simp
qed

lemma mergeList_nothing:
  assumes "\<forall>p\<in>set xs. validPair p" and "sorted_wrt below xs"
  shows "mergeList xs n = (xs, n)"
  using assms
proof (induction xs n rule: mergeList.induct)
  case (1 n)
  show ?case by simp
next
  case (2 x n)
  show ?case by simp
next
  case (3 x y ys n)
  have vx: "validPair x" using "3.prems"(1) by simp
  then have ne: "\<not> emptySlot x"
    by (auto simp: emptySlot_def validPair_def)
  have "\<forall>q\<in>set (y # ys). validPair q \<and> endIP q < startIP x"
    using "3.prems" by (auto simp: below_def)
  then have ab: "absorb x [] (y # ys) n = (x, y # ys, n)"
    using absorb_nothing[OF vx, of "y # ys" "[]" n] by simp
  have "mergeList (y # ys) n = (y # ys, n)"
    using "3.IH"(2)[OF ne ab[symmetric] refl] "3.prems" by simp
  with ne ab show ?case by simp
qed

lemma Sort_fixed_point:
  assumes "\<forall>p\<in>set xs. validPair p" and "sorted_wrt below xs"
  shows "Sort xs = Some xs"
proof -
  have "sorted_wrt (\<lambda>p q. startIP q < startIP p) xs"
  proof (rule sorted_wrt_mono_rel[OF _ assms(2)])
    fix x y assume "x \<in> set xs" "y \<in> set xs" "below x y"
    then show "startIP y < startIP x"
      using assms(1) by (auto simp: below_def validPair_def)
  qed
  then have s: "sort_Sort xs = xs"
    by (simp add: sort_Sort_def insertionSort_sorted_id)
  have m: "mergeItems xs = (xs, 0)"
    using mergeList_nothing[OF assms] by (simp add: mergeItems_mergeList)
  show ?thesis
    by (simp add: Sort_def s m)
qed

lemma Sort_idempotent_on_ranges:
  assumes "\<forall>p\<in>set items. validPair p"
  shows "\<exists>out. Sort items = Some out \<and> Sort out = Some out"
  using Sort_correct[OF assms] Sort_fixed_point by blast

text \<open>
  Claim C5 fails on the code.  After the inserts of 0.0.0.2 - 0.0.0.5, 0.0.0.0 - 0.0.0.3 and
  0.0.0.0 - 0.0.0.0 a first \<^verbatim>\<open>Sort\<close> leaves two pairs, and a second \<^verbatim>\<open>Sort\<close> leaves
  one.  In the first, the pair 0.0.0.0 - 0.0.0.0 is passed over as an empty slot by the loop
  over \<^verbatim>\<open>k\<close> in \<^verbatim>\<open>checkMerge\<close>; in the second it is merged, because the test of the
  loop over \<^verbatim>\<open>j\<close> reads \<^verbatim>\<open>items[i].endIP\<close> where the two other tests read the end of
  the pair they are about to treat.
\<close>

theorem Sort_twice_differs:
  "Sort [range4 0 2 5, range4 0 0 3, range4 0 0 0] = Some [range4 0 0 0, range4 0 0 5]
   \<and> Sort [range4 0 0 0, range4 0 0 5] = Some [range4 0 0 5]"
  by code_simp

end
